theory Spec2Isabelle
  imports Main "HOL-Library.Sublist" "HOL-Library.Multiset"
begin

section \<open>Hierarchy resolver: \<open>buildPathMap\<close>\<close>

text \<open>
  A node of the flat collection returned by the remote service. The source reads
  \<open>target_id\<close>, \<open>parent_id\<close>, \<open>name\<close> and \<open>target_type\<close>. \<open>parent_id\<close> is optional:
  \<open>None\<close> stands for an absent (undefined or null) property.
\<close>

record item =
  target_id :: string
  parent_id :: "string option"
  name :: string
  target_type :: string

type_synonym pathMap = "string \<rightharpoonup> string list"

text \<open>
  \<open>allItems.forEach(item => itemMap.set(item.target_id, item))\<close>: a later node with the
  same id replaces an earlier one.
\<close>

definition itemMap :: "item list \<Rightarrow> (string \<rightharpoonup> item)" where
  "itemMap allItems = fold (\<lambda>item m. m(target_id item \<mapsto> item)) allItems Map.empty"

text \<open>The guard \<open>item.parent_id && item.parent_id !== '0'\<close>: the empty string is falsy.\<close>

definition hasParent :: "item \<Rightarrow> bool" where
  "hasParent item =
     (case parent_id item of None \<Rightarrow> False | Some p \<Rightarrow> p \<noteq> [] \<and> p \<noteq> ''0'')"

lemma itemMap_Nil: "itemMap [] = Map.empty"
  by (simp add: itemMap_def)

lemma itemMap_snoc:
  "itemMap (xs @ [x]) = (itemMap xs)(target_id x \<mapsto> x)"
  by (simp add: itemMap_def)

lemma dom_itemMap: "dom (itemMap xs) = target_id ` set xs"
proof (induction xs rule: rev_induct)
  case Nil
  show ?case by (simp add: itemMap_Nil)
next
  case (snoc x xs)
  then show ?case by (simp only: itemMap_snoc dom_fun_upd) simp
qed

lemma finite_dom_itemMap: "finite (dom (itemMap xs))"
  by (simp add: dom_itemMap)

lemma itemMap_Some:
  "itemMap xs k = Some it \<Longrightarrow> it \<in> set xs \<and> target_id it = k"
  by (induction xs arbitrary: it rule: rev_induct)
     (auto simp: itemMap_snoc itemMap_Nil split: if_splits)

text \<open>When several nodes carry the same id, the map holds the last of them.\<close>

lemma itemMap_last:
  "itemMap xs k = Some it \<Longrightarrow>
     filter (\<lambda>node. target_id node = k) xs \<noteq> []
     \<and> it = last (filter (\<lambda>node. target_id node = k) xs)"
  by (induction xs arbitrary: it rule: rev_induct)
     (auto simp: itemMap_snoc itemMap_Nil split: if_splits)

text \<open>
  The inner function \<open>buildPath(targetId, visited)\<close>. It looks nodes up in the enclosing
  \<open>itemMap\<close>, which is built once from \<open>allItems\<close>; it reads and writes the enclosing
  \<open>pathMap\<close> and mutates the \<open>visited\<close> set it is handed, and both are threaded through
  as state and returned. Every early \<open>return\<close> of the source is a branch. The recursion
  ends because every call adds a node of the collection to \<open>visited\<close>.
\<close>

function buildPath ::
  "item list \<Rightarrow> string \<Rightarrow> pathMap \<times> string set \<Rightarrow> string list \<times> pathMap \<times> string set"
where
  "buildPath allItems targetId (pm, visited) =
     (case pm targetId of
        Some cached \<Rightarrow> (cached, pm, visited)
      | None \<Rightarrow>
          if targetId \<in> visited then ([], pm, visited)
          else
            (case itemMap allItems targetId of
               None \<Rightarrow> ([], pm, visited)
             | Some item \<Rightarrow>
                 (let (parentPath, pm1, visited1) =
                        (if hasParent item
                         then buildPath allItems (the (parent_id item)) (pm, insert targetId visited)
                         else ([], pm, insert targetId visited));
                      path = parentPath @ [name item]
                  in (path, pm1(targetId \<mapsto> path), visited1 - {targetId}))))"
  by pat_completeness auto
termination
proof (relation "measure (\<lambda>(allItems, targetId, pm, visited). card (dom (itemMap allItems) - visited))")
  show "wf (measure (\<lambda>(allItems, targetId, pm, visited). card (dom (itemMap allItems) - visited)))"
    by simp
next
  fix allItems :: "item list" and targetId :: string and pm :: pathMap
    and visited :: "string set" and x2 :: item
  assume nv: "targetId \<notin> visited" and it: "itemMap allItems targetId = Some x2"
  have "targetId \<in> dom (itemMap allItems) - visited" using nv it by auto
  moreover have "dom (itemMap allItems) - insert targetId visited
      = (dom (itemMap allItems) - visited) - {targetId}" by auto
  ultimately have "card (dom (itemMap allItems) - insert targetId visited)
      < card (dom (itemMap allItems) - visited)"
    using finite_dom_itemMap [of allItems]
    by (metis card_Diff1_less finite_Diff)
  then show "((allItems, the (parent_id x2), pm, insert targetId visited),
              (allItems, targetId, pm, visited))
      \<in> measure (\<lambda>(allItems, targetId, pm, visited). card (dom (itemMap allItems) - visited))"
    by simp
qed

declare buildPath.simps [simp del]

text \<open>
  \<open>allItems.forEach(item => buildPath(item.target_id))\<close>: every top-level call gets a fresh,
  empty \<open>visited\<close> set (the default argument); the \<open>pathMap\<close> is shared by all calls.
\<close>

definition buildPathMap :: "item list \<Rightarrow> pathMap" where
  "buildPathMap allItems =
     fold (\<lambda>item pm. fst (snd (buildPath allItems (target_id item) (pm, {})))) allItems Map.empty"

subsection \<open>Unfolding \<open>buildPath\<close> branch by branch\<close>

lemma buildPath_cached:
  "pm t = Some c \<Longrightarrow> buildPath xs t (pm, vis) = (c, pm, vis)"
  by (subst buildPath.simps) simp

lemma buildPath_cycle:
  "pm t = None \<Longrightarrow> t \<in> vis \<Longrightarrow> buildPath xs t (pm, vis) = ([], pm, vis)"
  by (subst buildPath.simps) simp

lemma buildPath_missing:
  "pm t = None \<Longrightarrow> itemMap xs t = None \<Longrightarrow> buildPath xs t (pm, vis) = ([], pm, vis)"
  by (subst buildPath.simps) simp

lemma buildPath_root:
  "pm t = None \<Longrightarrow> t \<notin> vis \<Longrightarrow> itemMap xs t = Some it \<Longrightarrow> \<not> hasParent it \<Longrightarrow>
   buildPath xs t (pm, vis) = ([name it], pm(t \<mapsto> [name it]), vis)"
  by (subst buildPath.simps) (simp add: Let_def)

lemma buildPath_child:
  "pm t = None \<Longrightarrow> t \<notin> vis \<Longrightarrow> itemMap xs t = Some it \<Longrightarrow> hasParent it \<Longrightarrow>
   buildPath xs (the (parent_id it)) (pm, insert t vis) = (pp, pm1, v1) \<Longrightarrow>
   buildPath xs t (pm, vis) = (pp @ [name it], pm1(t \<mapsto> pp @ [name it]), v1 - {t})"
  by (subst buildPath.simps) (simp add: Let_def)

lemma buildPath_cases [consumes 1, case_names cached cycle missing root child]:
  assumes "buildPath xs t (pm, vis) = (p, pm', vis')"
  obtains
    (cached) "pm t = Some p" "pm' = pm" "vis' = vis"
  | (cycle) "pm t = None" "t \<in> vis" "p = []" "pm' = pm" "vis' = vis"
  | (missing) "pm t = None" "t \<notin> vis" "itemMap xs t = None" "p = []" "pm' = pm" "vis' = vis"
  | (root) it where "pm t = None" "t \<notin> vis" "itemMap xs t = Some it" "\<not> hasParent it"
      "p = [name it]" "pm' = pm(t \<mapsto> [name it])" "vis' = vis"
  | (child) it pp pm1 v1 where "pm t = None" "t \<notin> vis" "itemMap xs t = Some it" "hasParent it"
      "buildPath xs (the (parent_id it)) (pm, insert t vis) = (pp, pm1, v1)"
      "p = pp @ [name it]" "pm' = pm1(t \<mapsto> pp @ [name it])" "vis' = v1 - {t}"
proof (cases "pm t")
  case (Some c)
  have e: "buildPath xs t (pm, vis) = (c, pm, vis)" by (rule buildPath_cached) fact+
  have "(p, pm', vis') = (c, pm, vis)" by (rule trans [OF assms [symmetric] e])
  then have "c = p" "pm' = pm" "vis' = vis" by simp_all
  with Some show ?thesis by (intro cached) simp_all
next
  case None
  show ?thesis
  proof (cases "t \<in> vis")
    case True
    have e: "buildPath xs t (pm, vis) = ([], pm, vis)" by (rule buildPath_cycle) fact+
  have "(p, pm', vis') = ([], pm, vis)" by (rule trans [OF assms [symmetric] e])
  then have "p = []" "pm' = pm" "vis' = vis" by simp_all
    with None True show ?thesis by (intro cycle)
  next
    case False
    show ?thesis
    proof (cases "itemMap xs t")
      case N2: None
      have e: "buildPath xs t (pm, vis) = ([], pm, vis)" by (rule buildPath_missing) fact+
  have "(p, pm', vis') = ([], pm, vis)" by (rule trans [OF assms [symmetric] e])
  then have "p = []" "pm' = pm" "vis' = vis" by simp_all
      with None False N2 show ?thesis by (intro missing)
    next
      case (Some it)
      show ?thesis
      proof (cases "hasParent it")
        case np: False
        have e: "buildPath xs t (pm, vis) = ([name it], pm(t \<mapsto> [name it]), vis)"
          by (rule buildPath_root) fact+
  have "(p, pm', vis') = ([name it], pm(t \<mapsto> [name it]), vis)" by (rule trans [OF assms [symmetric] e])
  then have "p = [name it]" "pm' = pm(t \<mapsto> [name it])" "vis' = vis" by simp_all
        with None False Some np show ?thesis by (intro root)
      next
        case True
        obtain pp pm1 v1 where
          r: "buildPath xs (the (parent_id it)) (pm, insert t vis) = (pp, pm1, v1)"
          by (cases "buildPath xs (the (parent_id it)) (pm, insert t vis)") auto
        have e: "buildPath xs t (pm, vis) = (pp @ [name it], pm1(t \<mapsto> pp @ [name it]), v1 - {t})"
          by (rule buildPath_child) fact+
  have "(p, pm', vis') = (pp @ [name it], pm1(t \<mapsto> pp @ [name it]), v1 - {t})" by (rule trans [OF assms [symmetric] e])
  then have "p = pp @ [name it]" "pm' = pm1(t \<mapsto> pp @ [name it])" "vis' = v1 - {t}"
          by simp_all
        with None False Some True r show ?thesis by (intro child)
      qed
    qed
  qed
qed

lemma buildPath_visited:
  "buildPath xs t (pm, vis) = (p, pm', vis') \<Longrightarrow> vis' = vis"
proof (induction xs t "(pm, vis)" arbitrary: pm vis p pm' vis' rule: buildPath.induct)
  case (1 xs t pm vis)
  from "1.prems" show ?case
  proof (cases rule: buildPath_cases)
    case (child it pp pm1 v1)
    from "1.hyps" [OF child(1,2,3,4,5)] have "v1 = insert t vis" .
    with child show ?thesis by auto
  qed auto
qed

lemma buildPath_mono:
  "buildPath xs t (pm, vis) = (p, pm', vis') \<Longrightarrow> pm \<subseteq>\<^sub>m pm'"
proof (induction xs t "(pm, vis)" arbitrary: pm vis p pm' vis' rule: buildPath.induct)
  case (1 xs t pm vis)
  from "1.prems" show ?case
  proof (cases rule: buildPath_cases)
    case (child it pp pm1 v1)
    from "1.hyps" [OF child(1,2,3,4,5)] have "pm \<subseteq>\<^sub>m pm1" .
    with child show ?thesis by (auto simp: map_le_def)
  next
    case (root it)
    then show ?thesis by (auto simp: map_le_def)
  qed auto
qed

lemma buildPath_stores:
  "buildPath xs t (pm, vis) = (p, pm', vis') \<Longrightarrow> t \<notin> vis \<Longrightarrow> itemMap xs t \<noteq> None \<Longrightarrow>
   pm' t = Some p"
  by (erule buildPath_cases) auto

definition named :: "item list \<Rightarrow> pathMap \<Rightarrow> bool" where
  "named xs pm \<longleftrightarrow>
     (\<forall>k p. pm k = Some p \<longrightarrow> p \<noteq> [] \<and> (\<exists>it. itemMap xs k = Some it \<and> last p = name it))"

lemma buildPath_named:
  "buildPath xs t (pm, vis) = (p, pm', vis') \<Longrightarrow> named xs pm \<Longrightarrow> named xs pm'"
proof (induction xs t "(pm, vis)" arbitrary: pm vis p pm' vis' rule: buildPath.induct)
  case (1 xs t pm vis)
  from "1.prems"(1) show ?case
  proof (cases rule: buildPath_cases)
    case (child it pp pm1 v1)
    from "1.hyps" [OF child(1,2,3,4,5) "1.prems"(2)] have "named xs pm1" .
    with child show ?thesis by (auto simp: named_def)
  next
    case (root it)
    with "1.prems"(2) show ?thesis by (auto simp: named_def)
  qed (use "1.prems"(2) in auto)
qed


definition pathStep :: "item list \<Rightarrow> item \<Rightarrow> pathMap \<Rightarrow> pathMap" where
  "pathStep allItems item pm = fst (snd (buildPath allItems (target_id item) (pm, {})))"

lemma buildPathMap_fold: "buildPathMap xs = fold (pathStep xs) xs Map.empty"
  by (simp add: buildPathMap_def pathStep_def [abs_def])

lemma pathStep_eq:
  obtains p where "buildPath xs (target_id y) (pm, {}) = (p, pathStep xs y pm, {})"
proof -
  obtain p pm' vis' where e: "buildPath xs (target_id y) (pm, {}) = (p, pm', vis')"
    by (cases "buildPath xs (target_id y) (pm, {})") auto
  then have "vis' = {}" by (rule buildPath_visited)
  with e that show ?thesis by (simp add: pathStep_def)
qed

lemma pathStep_mono: "pm \<subseteq>\<^sub>m pathStep xs y pm"
  by (rule pathStep_eq [of xs y pm]) (erule buildPath_mono)

lemma pathStep_named: "named xs pm \<Longrightarrow> named xs (pathStep xs y pm)"
  by (rule pathStep_eq [of xs y pm]) (erule buildPath_named)

lemma pathStep_stores: "y \<in> set xs \<Longrightarrow> target_id y \<in> dom (pathStep xs y pm)"
proof -
  assume "y \<in> set xs"
  then have "itemMap xs (target_id y) \<noteq> None"
    using dom_itemMap [of xs] by blast
  then show ?thesis
    by (rule_tac pathStep_eq [of xs y pm]) (auto dest: buildPath_stores)
qed

lemma fold_pathStep_mono: "pm \<subseteq>\<^sub>m fold (pathStep xs) ys pm"
proof (induction ys arbitrary: pm)
  case Nil
  show ?case by simp
next
  case (Cons y ys)
  have "pm \<subseteq>\<^sub>m pathStep xs y pm" by (rule pathStep_mono)
  also have "\<dots> \<subseteq>\<^sub>m fold (pathStep xs) ys (pathStep xs y pm)" by (rule Cons.IH)
  finally show ?case by simp
qed

lemma fold_pathStep_named: "named xs pm \<Longrightarrow> named xs (fold (pathStep xs) ys pm)"
  by (induction ys arbitrary: pm) (simp_all add: pathStep_named)

lemma fold_pathStep_stores:
  "set ys \<subseteq> set xs \<Longrightarrow> y \<in> set ys \<Longrightarrow> target_id y \<in> dom (fold (pathStep xs) ys pm)"
proof (induction ys arbitrary: pm)
  case Nil
  then show ?case by simp
next
  case (Cons z ys)
  show ?case
  proof (cases "y \<in> set ys")
    case True
    with Cons show ?thesis by simp
  next
    case False
    with Cons.prems have "y = z" "z \<in> set xs" by auto
    then have "target_id y \<in> dom (pathStep xs z pm)" by (simp add: pathStep_stores)
    moreover have "pathStep xs z pm \<subseteq>\<^sub>m fold (pathStep xs) ys (pathStep xs z pm)"
      by (rule fold_pathStep_mono)
    ultimately show ?thesis by (auto simp: map_le_def dom_def)
  qed
qed

lemma named_empty: "named xs Map.empty"
  by (simp add: named_def)

lemma itemMap_distinct:
  "distinct (map target_id xs) \<Longrightarrow> it \<in> set xs \<Longrightarrow> itemMap xs (target_id it) = Some it"
proof (induction xs rule: rev_induct)
  case Nil
  then show ?case by simp
next
  case (snoc x xs)
  then show ?case by (auto simp: itemMap_snoc image_iff)
qed

inductive resolves :: "item list \<Rightarrow> string \<Rightarrow> string list \<Rightarrow> bool"
  for allItems :: "item list"
where
  root: "itemMap allItems t = Some it \<Longrightarrow> \<not> hasParent it \<Longrightarrow> resolves allItems t [name it]"
| dangling: "itemMap allItems t = Some it \<Longrightarrow> hasParent it \<Longrightarrow>
     itemMap allItems (the (parent_id it)) = None \<Longrightarrow> resolves allItems t [name it]"
| child: "itemMap allItems t = Some it \<Longrightarrow> hasParent it \<Longrightarrow>
     resolves allItems (the (parent_id it)) pp \<Longrightarrow> resolves allItems t (pp @ [name it])"

definition twoCycle :: "item list \<Rightarrow> item \<Rightarrow> item \<Rightarrow> bool" where
  "twoCycle allItems A B \<longleftrightarrow>
     itemMap allItems (target_id A) = Some A \<and> itemMap allItems (target_id B) = Some B \<and>
     target_id A \<noteq> target_id B \<and>
     hasParent A \<and> parent_id A = Some (target_id B) \<and>
     hasParent B \<and> parent_id B = Some (target_id A)"

lemma resolves_in_dom: "resolves xs t p \<Longrightarrow> itemMap xs t \<noteq> None"
  by (induction rule: resolves.induct) auto

lemma resolves_fun: "resolves xs t p \<Longrightarrow> resolves xs t q \<Longrightarrow> p = q"
proof (induction arbitrary: q rule: resolves.induct)
  case (root t it)
  from root.prems root.hyps show ?case by (cases rule: resolves.cases) auto
next
  case (dangling t it)
  from dangling.prems dangling.hyps show ?case
    by (cases rule: resolves.cases) (auto dest: resolves_in_dom)
next
  case (child t it pp)
  from child.prems show ?case
  proof (cases rule: resolves.cases)
    case (root it')
    with child.hyps show ?thesis by simp
  next
    case (dangling it')
    with child.hyps show ?thesis by (auto dest: resolves_in_dom)
  next
    case c: (child it' pp')
    with child.hyps have "it' = it" by simp
    with c child.IH [of pp'] show ?thesis by simp
  qed
qed

definition sound :: "item list \<Rightarrow> pathMap \<Rightarrow> bool" where
  "sound xs pm \<longleftrightarrow> dom pm \<subseteq> dom (itemMap xs) \<and>
     (\<forall>t p q. pm t = Some p \<longrightarrow> resolves xs t q \<longrightarrow> p = q)"

definition deeper :: "item list \<Rightarrow> string set \<Rightarrow> string \<Rightarrow> bool" where
  "deeper xs vis t \<longleftrightarrow>
     (\<forall>v\<in>vis. \<forall>pv pt. resolves xs v pv \<longrightarrow> resolves xs t pt \<longrightarrow> length pt < length pv)"

lemma deeper_self: "deeper xs vis t \<Longrightarrow> resolves xs t q \<Longrightarrow> t \<notin> vis"
  unfolding deeper_def by (metis less_irrefl)

lemma deeper_parent:
  assumes "deeper xs vis t" "itemMap xs t = Some it" "hasParent it"
  shows "deeper xs (insert t vis) (the (parent_id it))"
  unfolding deeper_def
proof (intro ballI allI impI)
  fix v pv pt
  assume v: "v \<in> insert t vis" and pv: "resolves xs v pv"
    and pt: "resolves xs (the (parent_id it)) pt"
  from assms(2,3) pt have rt: "resolves xs t (pt @ [name it])" by (rule resolves.child)
  show "length pt < length pv"
  proof (cases "v = t")
    case True
    with pv rt have "pv = pt @ [name it]" by (auto dest: resolves_fun)
    then show ?thesis by simp
  next
    case False
    with v have "v \<in> vis" by simp
    with assms(1) pv rt have "length (pt @ [name it]) < length pv"
      unfolding deeper_def by blast
    then show ?thesis by simp
  qed
qed

lemma buildPath_sound:
  "buildPath xs t (pm, vis) = (p, pm', vis') \<Longrightarrow> sound xs pm \<Longrightarrow> deeper xs vis t \<Longrightarrow>
   sound xs pm' \<and> (\<forall>q. resolves xs t q \<longrightarrow> p = q)"
proof (induction xs t "(pm, vis)" arbitrary: pm vis p pm' vis' rule: buildPath.induct)
  case (1 xs t pm vis)
  note snd = \<open>sound xs pm\<close> and dp = \<open>deeper xs vis t\<close>
  from "1.prems"(1) show ?case
  proof (cases rule: buildPath_cases)
    case cached
    with snd show ?thesis by (auto simp: sound_def)
  next
    case cycle
    with snd dp show ?thesis by (auto dest: deeper_self)
  next
    case missing
    with snd show ?thesis by (auto dest: resolves_in_dom)
  next
    case (root it)
    have q: "\<And>q. resolves xs t q \<Longrightarrow> q = [name it]"
      using root(3,4) by (auto elim: resolves.cases)
    with snd root show ?thesis by (auto simp: sound_def)
  next
    case (child it pp pm1 v1)
    have d': "deeper xs (insert t vis) (the (parent_id it))"
      using dp child(3,4) by (rule deeper_parent)
    from "1.hyps" [OF child(1,2,3,4,5) snd d']
    have s1: "sound xs pm1" and pq: "\<And>q. resolves xs (the (parent_id it)) q \<Longrightarrow> pp = q"
      by auto
    have nopar: "itemMap xs (the (parent_id it)) = None \<Longrightarrow> pp = []"
    proof -
      assume n: "itemMap xs (the (parent_id it)) = None"
      with snd have "pm (the (parent_id it)) = None" by (auto simp: sound_def)
      with n have "buildPath xs (the (parent_id it)) (pm, insert t vis) = ([], pm, insert t vis)"
        by (rule_tac buildPath_missing)
      with child(5) show "pp = []" by simp
    qed
    have q: "\<And>q. resolves xs t q \<Longrightarrow> q = pp @ [name it]"
    proof -
      fix q assume "resolves xs t q"
      then show "q = pp @ [name it]"
        using child(3,4) pq nopar by (cases rule: resolves.cases) auto
    qed
    with s1 child show ?thesis by (auto simp: sound_def)
  qed
qed

lemma deeper_empty: "deeper xs {} t"
  by (simp add: deeper_def)

lemma pathStep_sound: "sound xs pm \<Longrightarrow> sound xs (pathStep xs y pm)"
  by (rule pathStep_eq [of xs y pm]) (auto dest: buildPath_sound simp: deeper_empty)

lemma fold_pathStep_sound: "sound xs pm \<Longrightarrow> sound xs (fold (pathStep xs) ys pm)"
  by (induction ys arbitrary: pm) (simp_all add: pathStep_sound)

lemma buildPathMap_sound: "sound xs (buildPathMap xs)"
  unfolding buildPathMap_fold by (rule fold_pathStep_sound) (simp add: sound_def)

lemma buildPathMap_dom: "dom (buildPathMap xs) = target_id ` set xs"
proof
  show "dom (buildPathMap xs) \<subseteq> target_id ` set xs"
    using buildPathMap_sound [of xs] by (simp add: sound_def dom_itemMap)
  show "target_id ` set xs \<subseteq> dom (buildPathMap xs)"
    unfolding buildPathMap_fold using fold_pathStep_stores [of xs xs] by blast
qed

lemma buildPathMap_resolves:
  assumes "resolves xs t q"
  shows "buildPathMap xs t = Some q"
proof -
  from assms have "t \<in> dom (itemMap xs)" by (auto dest: resolves_in_dom)
  then have "t \<in> dom (buildPathMap xs)" by (simp add: buildPathMap_dom dom_itemMap)
  then obtain p where "buildPathMap xs t = Some p" by auto
  with buildPathMap_sound [of xs] assms show ?thesis by (auto simp: sound_def)
qed


lemma twoCycle_sym: "twoCycle xs A B \<Longrightarrow> twoCycle xs B A"
  by (auto simp: twoCycle_def)

lemma cycle_inner:
  assumes c: "twoCycle xs A B"
    and "pm (target_id A) = None" "pm (target_id B) = None"
    and "target_id A \<in> vis" "target_id B \<notin> vis"
  shows "buildPath xs (target_id B) (pm, vis)
         = ([name B], pm(target_id B \<mapsto> [name B]), vis)"
proof -
  have "buildPath xs (target_id A) (pm, insert (target_id B) vis)
        = ([], pm, insert (target_id B) vis)"
    using assms by (intro buildPath_cycle) auto
  then have "buildPath xs (the (parent_id B)) (pm, insert (target_id B) vis)
        = ([], pm, insert (target_id B) vis)"
    using c by (simp add: twoCycle_def)
  then have "buildPath xs (target_id B) (pm, vis)
      = ([] @ [name B], pm(target_id B \<mapsto> [] @ [name B]),
         insert (target_id B) vis - {target_id B})"
    using c assms(3,5) by (intro buildPath_child [where it = B]) (auto simp: twoCycle_def)
  with assms(5) show ?thesis by simp
qed

lemma cycle_outer:
  assumes c: "twoCycle xs A B"
    and "pm (target_id A) = None" "pm (target_id B) = None"
    and "target_id A \<notin> vis" "target_id B \<notin> vis"
  shows "buildPath xs (target_id A) (pm, vis)
         = ([name B, name A],
            pm(target_id B \<mapsto> [name B], target_id A \<mapsto> [name B, name A]), vis)"
proof -
  have "buildPath xs (target_id B) (pm, insert (target_id A) vis)
        = ([name B], pm(target_id B \<mapsto> [name B]), insert (target_id A) vis)"
    using assms by (intro cycle_inner) (auto simp: twoCycle_def)
  then have "buildPath xs (the (parent_id A)) (pm, insert (target_id A) vis)
        = ([name B], pm(target_id B \<mapsto> [name B]), insert (target_id A) vis)"
    using c by (simp add: twoCycle_def)
  then have "buildPath xs (target_id A) (pm, vis)
      = ([name B] @ [name A],
         pm(target_id B \<mapsto> [name B], target_id A \<mapsto> [name B] @ [name A]),
         insert (target_id A) vis - {target_id A})"
    using c assms(2,3,4) by (intro buildPath_child [where it = A]) (auto simp: twoCycle_def)
  with assms(4) show ?thesis by simp
qed

definition cycleResolved :: "item \<Rightarrow> item \<Rightarrow> pathMap \<Rightarrow> bool" where
  "cycleResolved A B pm \<longleftrightarrow>
     pm (target_id A) = Some [name B, name A] \<and> pm (target_id B) = Some [name B]"

definition cycleState :: "item \<Rightarrow> item \<Rightarrow> pathMap \<Rightarrow> bool" where
  "cycleState A B pm \<longleftrightarrow>
     (pm (target_id A) = None \<and> pm (target_id B) = None)
     \<or> cycleResolved A B pm \<or> cycleResolved B A pm"

lemma cycleState_upd:
  "cycleState A B pm \<Longrightarrow> t \<noteq> target_id A \<Longrightarrow> t \<noteq> target_id B \<Longrightarrow>
   cycleState A B (pm(t \<mapsto> p))"
  by (auto simp: cycleState_def cycleResolved_def)

lemma buildPath_cycleState:
  "buildPath xs t (pm, vis) = (p, pm', vis') \<Longrightarrow> twoCycle xs A B \<Longrightarrow>
   cycleState A B pm \<Longrightarrow> target_id A \<notin> vis \<Longrightarrow> target_id B \<notin> vis \<Longrightarrow>
   cycleState A B pm'"
proof (induction xs t "(pm, vis)" arbitrary: pm vis p pm' vis' rule: buildPath.induct)
  case (1 xs t pm vis)
  note c = \<open>twoCycle xs A B\<close> and st = \<open>cycleState A B pm\<close>
    and va = \<open>target_id A \<notin> vis\<close> and vb = \<open>target_id B \<notin> vis\<close>
  from "1.prems"(1) show ?case
  proof (cases rule: buildPath_cases)
    case (root it)
    with c have "t \<noteq> target_id A" "t \<noteq> target_id B" by (auto simp: twoCycle_def)
    with st root show ?thesis by (simp add: cycleState_upd)
  next
    case (child it pp pm1 v1)
    show ?thesis
    proof (cases "t = target_id A \<or> t = target_id B")
      case False
      then have "target_id A \<notin> insert t vis" "target_id B \<notin> insert t vis"
        using va vb by auto
      from "1.hyps" [OF child(1,2,3,4,5) c st this] have "cycleState A B pm1" .
      with False child show ?thesis by (simp add: cycleState_upd)
    next
      case True
      with child(1) st have none: "pm (target_id A) = None" "pm (target_id B) = None"
        by (auto simp: cycleState_def cycleResolved_def)
      from True show ?thesis
      proof
        assume ta: "t = target_id A"
        have "(p, pm', vis') = ([name B, name A],
            pm(target_id B \<mapsto> [name B], target_id A \<mapsto> [name B, name A]), vis)"
          by (rule trans [OF "1.prems"(1) [symmetric, unfolded ta] cycle_outer [OF c none va vb]])
        then have "pm' = pm(target_id B \<mapsto> [name B], target_id A \<mapsto> [name B, name A])"
          by simp
        with c show ?thesis by (auto simp: cycleState_def cycleResolved_def twoCycle_def)
      next
        assume tb: "t = target_id B"
        have "(p, pm', vis') = ([name A, name B],
            pm(target_id A \<mapsto> [name A], target_id B \<mapsto> [name A, name B]), vis)"
          by (rule trans [OF "1.prems"(1) [symmetric, unfolded tb]
                cycle_outer [OF twoCycle_sym [OF c] none(2,1) vb va]])
        then have "pm' = pm(target_id A \<mapsto> [name A], target_id B \<mapsto> [name A, name B])"
          by simp
        with c show ?thesis by (auto simp: cycleState_def cycleResolved_def twoCycle_def)
      qed
    qed
  qed (use st in auto)
qed

lemma pathStep_cycleState:
  "twoCycle xs A B \<Longrightarrow> cycleState A B pm \<Longrightarrow> cycleState A B (pathStep xs y pm)"
  by (rule pathStep_eq [of xs y pm]) (auto dest: buildPath_cycleState)

lemma fold_pathStep_cycleState:
  "twoCycle xs A B \<Longrightarrow> cycleState A B pm \<Longrightarrow> cycleState A B (fold (pathStep xs) ys pm)"
  by (induction ys arbitrary: pm) (simp_all add: pathStep_cycleState)

lemma buildPathMap_twoCycle:
  assumes "twoCycle xs A B"
  shows "cycleResolved A B (buildPathMap xs) \<or> cycleResolved B A (buildPathMap xs)"
proof -
  have "cycleState A B (buildPathMap xs)"
    unfolding buildPathMap_fold using assms
    by (rule fold_pathStep_cycleState) (simp add: cycleState_def)
  moreover have "target_id A \<in> dom (buildPathMap xs)"
    using assms by (auto simp: buildPathMap_dom twoCycle_def dest: itemMap_Some)
  ultimately show ?thesis by (auto simp: cycleState_def)
qed


subsection \<open>Example collection\<close>

text \<open>
  Two folders that name each other as parent, a root folder and an interface inside it.
\<close>

definition cycA :: item where
  "cycA = \<lparr>target_id = ''A'', parent_id = Some ''B'', name = ''a'', target_type = ''folder''\<rparr>"

definition cycB :: item where
  "cycB = \<lparr>target_id = ''B'', parent_id = Some ''A'', name = ''b'', target_type = ''folder''\<rparr>"

definition rootC :: item where
  "rootC = \<lparr>target_id = ''C'', parent_id = Some ''0'', name = ''c'', target_type = ''folder''\<rparr>"

definition leafD :: item where
  "leafD = \<lparr>target_id = ''D'', parent_id = Some ''C'', name = ''d'', target_type = ''api''\<rparr>"

definition exampleItems :: "item list" where
  "exampleItems = [cycA, cycB, rootC, leafD]"

text \<open>Two root folders that carry the same id.\<close>

definition dupFirst :: item where
  "dupFirst = \<lparr>target_id = ''X'', parent_id = Some ''0'', name = ''x1'', target_type = ''folder''\<rparr>"

definition dupSecond :: item where
  "dupSecond = \<lparr>target_id = ''X'', parent_id = Some ''0'', name = ''x2'', target_type = ''folder''\<rparr>"

lemma exampleItems_twoCycle: "twoCycle exampleItems cycA cycB"
  unfolding twoCycle_def by code_simp

lemma exampleItems_resolves: "resolves exampleItems ''D'' [''c'', ''d'']"
proof -
  have c: "itemMap exampleItems ''C'' = Some rootC" by code_simp
  have d: "itemMap exampleItems ''D'' = Some leafD" by code_simp
  have "\<not> hasParent rootC" by code_simp
  with c have "resolves exampleItems ''C'' [name rootC]" by (rule resolves.root)
  moreover have "hasParent leafD" by code_simp
  moreover have "the (parent_id leafD) = ''C''" by code_simp
  ultimately have "resolves exampleItems ''D'' ([name rootC] @ [name leafD])"
    using d by (intro resolves.child) simp_all
  then show ?thesis by (simp add: rootC_def leafD_def)
qed

subsection \<open>Claims about \<open>buildPathMap\<close>\<close>

text \<open>
  Claim C10, as the code has it. For every node collection, the map returned by
  \<open>buildPathMap\<close> has an entry for the id of every node of the collection, and every stored
  path is a non-empty sequence of names, nodes on parent cycles included. The last element
  of the path stored under an id is the name of the node that \<open>itemMap\<close> holds for that id:
  the last node of the collection that carries the id. When the ids of the collection are
  pairwise distinct this is the node itself, and every node's own entry ends in the node's
  own name.
\<close>

theorem buildPathMap_entry_for_every_node:
  "(\<forall>node\<in>set allItems. \<exists>path. buildPathMap allItems (target_id node) = Some path)
   \<and> (\<forall>k path. buildPathMap allItems k = Some path \<longrightarrow>
          path \<noteq> []
          \<and> (\<exists>node\<in>set allItems.
                target_id node = k \<and> itemMap allItems k = Some node \<and> last path = name node)
          \<and> last path = name (last (filter (\<lambda>node. target_id node = k) allItems)))
   \<and> (distinct (map target_id allItems) \<longrightarrow>
        (\<forall>node\<in>set allItems.
           \<exists>path. buildPathMap allItems (target_id node) = Some path \<and> path \<noteq> []
             \<and> last path = name node))"
proof -
  have entries: "\<exists>path. buildPathMap allItems (target_id node) = Some path"
    if "node \<in> set allItems" for node
  proof -
    from that have "target_id node \<in> dom (buildPathMap allItems)"
      by (simp add: buildPathMap_dom)
    then show ?thesis by blast
  qed
  have "named allItems (buildPathMap allItems)"
    unfolding buildPathMap_fold by (intro fold_pathStep_named named_empty)
  then have held: "path \<noteq> [] \<and> (\<exists>node. itemMap allItems k = Some node \<and> last path = name node)"
    if "buildPathMap allItems k = Some path" for k path
    using that unfolding named_def by blast
  have stored: "path \<noteq> []
      \<and> (\<exists>node\<in>set allItems.
            target_id node = k \<and> itemMap allItems k = Some node \<and> last path = name node)
      \<and> last path = name (last (filter (\<lambda>node. target_id node = k) allItems))"
    if "buildPathMap allItems k = Some path" for k path
  proof -
    from held [OF that] obtain node where
      n: "path \<noteq> []" "itemMap allItems k = Some node" "last path = name node" by blast
    from n(2) have m: "node \<in> set allItems" "target_id node = k"
      by (auto dest: itemMap_Some)
    from n(2) have "node = last (filter (\<lambda>node. target_id node = k) allItems)"
      by (simp add: itemMap_last)
    with n(3) have "last path = name (last (filter (\<lambda>node. target_id node = k) allItems))"
      by simp
    with n m show ?thesis by blast
  qed
  have own: "\<exists>path. buildPathMap allItems (target_id node) = Some path \<and> path \<noteq> []
      \<and> last path = name node"
    if "distinct (map target_id allItems)" "node \<in> set allItems" for node
  proof -
    from entries [OF that(2)] obtain path where
      p: "buildPathMap allItems (target_id node) = Some path" by blast
    from held [OF p] itemMap_distinct [OF that] p show ?thesis by auto
  qed
  from entries stored own show ?thesis by blast
qed

theorem buildPathMap_entry_for_every_node_witness:
  "cycA \<in> set exampleItems \<and> distinct (map target_id exampleItems) \<and>
   (\<exists>path. buildPathMap exampleItems (target_id cycA) = Some path \<and> path \<noteq> []
      \<and> last path = name cycA)"
proof -
  have m: "cycA \<in> set exampleItems" by (simp add: exampleItems_def)
  have d: "distinct (map target_id exampleItems)" by code_simp
  from buildPathMap_entry_for_every_node [of exampleItems] d m show ?thesis by blast
qed

text \<open>
  The claim as the specification words it asks, for every node, for a path that ends in
  that node's own name. Two nodes with the same id share one entry of the map, and
  \<open>itemMap.set\<close> keeps the later node: the entry under the id of the first node ends in the
  name of the second.
\<close>

theorem buildPathMap_duplicate_id_last_wins:
  "target_id dupFirst = target_id dupSecond \<and>
   buildPathMap [dupFirst, dupSecond] (target_id dupFirst) = Some [name dupSecond] \<and>
   last [name dupSecond] \<noteq> name dupFirst"
  by code_simp

text \<open>
  Claim C1, as the code has it. \<open>buildPath\<close> is a total function, so \<open>buildPathMap\<close>
  returns for every collection. For two nodes that name each other as parent the revisit
  is cut where it is detected: the inner call returns \<open>[]\<close>, and both nodes still get a
  stored, non-empty path. The node of the pair whose parent lookup hit the revisit gets the
  path of its own name alone, the other one gets that name followed by its own. Every node
  whose parent chain ends (at a root, or at an id that no node of the collection carries)
  gets the names along that chain, outermost first.
\<close>

theorem buildPathMap_cycle_cut_acyclic_resolved:
  "(twoCycle allItems A B \<longrightarrow>
      (buildPathMap allItems (target_id A) = Some [name B, name A] \<and>
       buildPathMap allItems (target_id B) = Some [name B])
      \<or> (buildPathMap allItems (target_id B) = Some [name A, name B] \<and>
         buildPathMap allItems (target_id A) = Some [name A]))
   \<and> (resolves allItems t path \<longrightarrow> buildPathMap allItems t = Some path)"
  using buildPathMap_twoCycle [of allItems A B] buildPathMap_resolves [of allItems t path]
  by (auto simp: cycleResolved_def)

theorem buildPathMap_cycle_cut_acyclic_resolved_witness:
  "twoCycle exampleItems cycA cycB \<and> resolves exampleItems ''D'' [''c'', ''d''] \<and>
   buildPathMap exampleItems ''A'' = Some [''b'', ''a''] \<and>
   buildPathMap exampleItems ''B'' = Some [''b''] \<and>
   buildPathMap exampleItems ''D'' = Some [''c'', ''d'']"
proof -
  have ab: "buildPathMap exampleItems ''A'' = Some [''b'', ''a'']"
    "buildPathMap exampleItems ''B'' = Some [''b'']"
    by code_simp+
  from buildPathMap_cycle_cut_acyclic_resolved [of exampleItems cycA cycB "''D''" "[''c'', ''d'']"]
    exampleItems_twoCycle exampleItems_resolves ab
  show ?thesis by blast
qed

text \<open>
  The claim as the specification words it asks for the empty path for both nodes of the
  pair. On the collection of just the two nodes the code stores two non-empty paths.
\<close>

theorem buildPathMap_cycle_paths_not_empty:
  "buildPathMap [cycA, cycB] ''A'' = Some [''b'', ''a''] \<and>
   buildPathMap [cycA, cycB] ''B'' = Some [''b''] \<and>
   buildPathMap [cycA, cycB] ''A'' \<noteq> Some [] \<and>
   buildPathMap [cycA, cycB] ''B'' \<noteq> Some []"
  by code_simp

text \<open>With the two nodes in the other order the roles are exchanged.\<close>

lemma buildPathMap_cycle_other_order:
  "buildPathMap [cycB, cycA] ''B'' = Some [''a'', ''b''] \<and>
   buildPathMap [cycB, cycA] ''A'' = Some [''a'']"
  by code_simp

section \<open>Field lists\<close>

text \<open>
  JSON values as the tool receives them from \<open>JSON.parse\<close>. Numbers are carried as
  integers; the code never computes with them. The entries of an object are kept in the
  order in which \<open>Object.keys\<close> enumerates them.
\<close>

datatype json = JNull | JBool bool | JNum int | JStr string | JArr "json list"
  | JObj "(string \<times> json) list"

text \<open>
  One entry of a field list. The source reads the properties below from a duck-typed
  object. A string property that is only tested for truthiness (\<open>key\<close>, \<open>type\<close>,
  \<open>field_type\<close>, \<open>desc\<close>, \<open>description\<close>) is the empty string when absent, a flag that is
  only tested for truthiness (\<open>required\<close>, \<open>autoParent\<close>) is its truth value, and a
  property read through \<open>??\<close> or \<open>||\<close> on a value is optional, \<open>None\<close> standing for
  \<open>undefined\<close>. \<open>fvalue\<close> is the property \<open>value\<close>.
\<close>

record field =
  key :: string
  type :: string
  field_type :: string
  required :: bool
  is_checked :: "int option"
  not_null :: "int option"
  desc :: string
  description :: string
  example :: "json option"
  fvalue :: "json option"
  autoParent :: bool
  schema :: "json option"

subsection \<open>Paths\<close>

text \<open>\<open>String.prototype.split\<close> with a one-character separator: never an empty list.\<close>

fun splitOn :: "char \<Rightarrow> string \<Rightarrow> string list" where
  "splitOn c [] = [[]]"
| "splitOn c (x # xs) =
     (if x = c then [] # splitOn c xs
      else (case splitOn c xs of w # ws \<Rightarrow> (x # w) # ws | [] \<Rightarrow> [[x]]))"

text \<open>\<open>seg.endsWith('[]')\<close> and \<open>isArray ? seg.slice(0, -2) : seg\<close>.\<close>

definition endsWithBrackets :: "string \<Rightarrow> bool" where
  "endsWithBrackets seg \<longleftrightarrow> 2 \<le> length seg \<and> drop (length seg - 2) seg = ''[]''"

definition cleanSeg :: "string \<Rightarrow> string" where
  "cleanSeg seg = (if endsWithBrackets seg then take (length seg - 2) seg else seg)"

text \<open>
  \<open>currentPath = currentPath ? `${currentPath}.${cleanSeg}` : cleanSeg\<close>: an empty
  \<open>currentPath\<close> is falsy.
\<close>

definition extendPath :: "string \<Rightarrow> string \<Rightarrow> string" where
  "extendPath currentPath seg =
     (if currentPath \<noteq> [] then currentPath @ ''.'' @ cleanSeg seg else cleanSeg seg)"

subsection \<open>Parent expansion: \<open>expandFieldListWithParents\<close>\<close>

text \<open>The object literal pushed for a missing parent: every other property is absent.\<close>

definition autoParentField :: "string \<Rightarrow> bool \<Rightarrow> field" where
  "autoParentField currentPath isArray =
     \<lparr>key = currentPath, type = (if isArray then ''array'' else ''object''), field_type = [],
      required = False, is_checked = None, not_null = None, desc = [], description = [],
      example = None, fvalue = None, autoParent = True, schema = None\<rparr>"

text \<open>
  The body of \<open>ensureParent\<close>: \<open>segments.forEach((seg, index) => ...)\<close> over the segments
  still to visit, with the running \<open>currentPath\<close> and the two pieces of state the closure
  mutates, \<open>result\<close> and \<open>seenKeys\<close>. \<open>index < segments.length - 1\<close> holds exactly when
  segments remain after the current one.
\<close>

fun ensureSegments ::
  "string set \<Rightarrow> string \<Rightarrow> string list \<Rightarrow> field list \<times> string set \<Rightarrow> field list \<times> string set"
where
  "ensureSegments userKeys currentPath [] (result, seenKeys) = (result, seenKeys)"
| "ensureSegments userKeys currentPath (seg # rest) (result, seenKeys) =
     (let isArray = endsWithBrackets seg;
          currentPath' = extendPath currentPath seg
      in if currentPath' \<in> userKeys
         then ensureSegments userKeys currentPath' rest (result, seenKeys)
         else if currentPath' \<notin> seenKeys
         then ensureSegments userKeys currentPath' rest
                (if rest \<noteq> [] then result @ [autoParentField currentPath' isArray] else result,
                 insert currentPath' seenKeys)
         else ensureSegments userKeys currentPath' rest (result, seenKeys))"

definition ensureParent ::
  "string set \<Rightarrow> string \<Rightarrow> field list \<times> string set \<Rightarrow> field list \<times> string set"
where
  "ensureParent userKeys keyPath st = ensureSegments userKeys [] (splitOn CHR ''.'' keyPath) st"

text \<open>
  \<open>fields.forEach(field => ...)\<close>. An entry of the input may be \<open>null\<close> (\<open>None\<close>); it is
  skipped like an entry whose key is falsy. Both branches of the final \<open>if\<close> push the
  field.
\<close>

fun expandFields ::
  "string set \<Rightarrow> field option list \<Rightarrow> field list \<times> string set \<Rightarrow> field list \<times> string set"
where
  "expandFields userKeys [] st = st"
| "expandFields userKeys (None # flds) st = expandFields userKeys flds st"
| "expandFields userKeys (Some f # flds) st =
     (if key f = [] then expandFields userKeys flds st
      else
        (let (result, seenKeys) = ensureParent userKeys (key f) st
         in if key f \<notin> seenKeys
            then expandFields userKeys flds (result @ [f], insert (key f) seenKeys)
            else expandFields userKeys flds (result @ [f], seenKeys)))"

text \<open>\<open>new Set(fields.filter(f => f && f.key).map(f => String(f.key)))\<close>.\<close>

definition userKeysOf :: "field option list \<Rightarrow> string set" where
  "userKeysOf flds = set (map key (filter (\<lambda>f. key f \<noteq> []) (List.map_filter id flds)))"

definition expandFieldListWithParents :: "field option list \<Rightarrow> field list" where
  "expandFieldListWithParents flds = fst (expandFields (userKeysOf flds) flds ([], {}))"

subsection \<open>Parameter projection: \<open>convertParams\<close>\<close>

datatype error = TypeError | FieldsRequired

text \<open>
  One element of the list \<open>convertParams\<close> returns. The selectors carry the prefix \<open>p_\<close>;
  the properties of the source object are \<open>param_id\<close>, \<open>description\<close>, \<open>field_type\<close>,
  \<open>is_checked\<close>, \<open>key\<close>, \<open>not_null\<close>, \<open>value\<close> and \<open>schema\<close>.
\<close>

record descriptor =
  p_param_id :: string
  p_description :: string
  p_field_type :: string
  p_is_checked :: int
  p_key :: string
  p_not_null :: int
  p_value :: json
  p_schema :: json

text \<open>JavaScript truthiness of a JSON value, and \<open>a ?? b\<close> on an optional JSON value.\<close>

fun truthy :: "json \<Rightarrow> bool" where
  "truthy JNull = False"
| "truthy (JBool b) = b"
| "truthy (JNum n) = (n \<noteq> 0)"
| "truthy (JStr s) = (s \<noteq> [])"
| "truthy (JArr xs) = True"
| "truthy (JObj kvs) = True"

fun nullish :: "json option \<Rightarrow> bool" where
  "nullish None = True"
| "nullish (Some JNull) = True"
| "nullish (Some v) = False"

definition orElse :: "string \<Rightarrow> string \<Rightarrow> string" where
  "orElse a b = (if a \<noteq> [] then a else b)"

text \<open>The callback of \<open>paramsList.map\<close>, given the identifier \<open>generateId()\<close> returned.\<close>

definition convertParam :: "string \<Rightarrow> field \<Rightarrow> descriptor" where
  "convertParam paramId param =
     \<lparr>p_param_id = paramId,
      p_description = orElse (desc param) (orElse (description param) []),
      p_field_type = orElse (type param) (orElse (field_type param) ''string''),
      p_is_checked =
        (if autoParent param then 0
         else if required param then 1
         else (case is_checked param of Some n \<Rightarrow> n | None \<Rightarrow> 0)),
      p_key = key param,
      p_not_null =
        (if autoParent param then 0
         else if required param then 1
         else (case not_null param of Some n \<Rightarrow> n | None \<Rightarrow> 0)),
      p_value =
        (if autoParent param then JStr []
         else if \<not> nullish (example param) then the (example param)
         else if \<not> nullish (fvalue param) then the (fvalue param)
         else JStr []),
      p_schema =
        (case schema param of
           Some sch \<Rightarrow>
             if truthy sch then sch else JObj [(''type'', JStr (orElse (type param) ''string''))]
         | None \<Rightarrow> JObj [(''type'', JStr (orElse (type param) ''string''))])\<rparr>"

text \<open>
  \<open>convertParams\<close>. \<open>generateId\<close> reads the clock and a random number; \<open>ids i\<close> stands for
  the identifier it returns for the element at index \<open>i\<close>. A \<open>null\<close> element makes the
  callback read a property of \<open>null\<close>, which throws a \<open>TypeError\<close>.
\<close>

definition convertParams :: "(nat \<Rightarrow> string) \<Rightarrow> field option list \<Rightarrow> error + descriptor list" where
  "convertParams ids paramsList =
     (if None \<in> set paramsList then Inl TypeError
      else Inr (map (\<lambda>(i, param). convertParam (ids i) (the param)) (enumerate 0 paramsList)))"

subsection \<open>Annotated rendering: \<open>buildDescMap\<close> and \<open>stringifyWithComments\<close>\<close>

text \<open>\<open>String(field.key).replace(/\[\]/g, '[0]')\<close>.\<close>

fun replaceBrackets :: "string \<Rightarrow> string" where
  "replaceBrackets [] = []"
| "replaceBrackets [x] = [x]"
| "replaceBrackets (x # y # rest) =
     (if x = CHR ''['' \<and> y = CHR '']'' then ''[0]'' @ replaceBrackets rest
      else x # replaceBrackets (y # rest))"

text \<open>
  \<open>buildDescMap\<close> is called on expanded lists only, which hold no \<open>null\<close>. A later field
  with the same path replaces the description of an earlier one.
\<close>

definition descStep :: "field \<Rightarrow> (string \<rightharpoonup> string) \<Rightarrow> (string \<rightharpoonup> string)" where
  "descStep f m =
     (if key f = [] then m
      else (let path = replaceBrackets (key f)
            in if orElse (desc f) (description f) \<noteq> []
               then m(path \<mapsto> orElse (desc f) (description f)) else m))"

definition buildDescMap :: "field list \<Rightarrow> (string \<rightharpoonup> string)" where
  "buildDescMap flds = fold descStep flds Map.empty"

text \<open>\<open>' '.repeat(lvl * indent)\<close>, the decimal digits of an index, and a line feed.\<close>

definition pad :: "nat \<Rightarrow> nat \<Rightarrow> string" where
  "pad indent lvl = replicate (lvl * indent) CHR '' ''"

fun showNat :: "nat \<Rightarrow> string" where
  "showNat n =
     (if n < 10 then [char_of (48 + n)] else showNat (n div 10) @ [char_of (48 + n mod 10)])"

declare showNat.simps [simp del]

definition newline :: string where
  "newline = [CHR 0x0A]"

text \<open>\<open>parts.join(sep)\<close>.\<close>

fun joinWith :: "string \<Rightarrow> string list \<Rightarrow> string" where
  "joinWith sep [] = []"
| "joinWith sep [x] = x"
| "joinWith sep (x # y # rest) = x @ sep @ joinWith sep (y # rest)"

text \<open>\<open>descMap.get(childPath) ? ` // ${descMap.get(childPath)}` : ''\<close>.\<close>

definition commentFor :: "(string \<rightharpoonup> string) \<Rightarrow> string \<Rightarrow> string" where
  "commentFor descMap childPath =
     (case descMap childPath of
        Some d \<Rightarrow> if d \<noteq> [] then '' // '' @ d else []
      | None \<Rightarrow> [])"

text \<open>
  \<open>stringifyWithComments(value, descMap, path, indent, level)\<close>. The built-in
  \<open>JSON.stringify\<close>, which renders the values that are neither arrays nor objects, is the
  parameter \<open>jsonStringify\<close>. The callers pass \<open>path = ''\<close>, \<open>indent = 4\<close>, \<open>level = 0\<close>.
\<close>

function stringifyWithComments ::
  "(json \<Rightarrow> string) \<Rightarrow> json \<Rightarrow> (string \<rightharpoonup> string) \<Rightarrow> string \<Rightarrow> nat \<Rightarrow> nat \<Rightarrow> string"
where
  "stringifyWithComments jsonStringify (JArr items) descMap path indent level =
     (if items = [] then ''[]''
      else ''['' @ newline
        @ joinWith ('','' @ newline)
            (map (\<lambda>(index, item).
                let childPath = path @ ''['' @ showNat index @ '']'';
                    childStr = stringifyWithComments jsonStringify item descMap childPath
                                 indent (level + 1)
                in pad indent (level + 1) @ childStr @ commentFor descMap childPath)
              (enumerate 0 items))
        @ newline @ pad indent level @ '']'')"
| "stringifyWithComments jsonStringify (JObj entries) descMap path indent level =
     ''{'' @ newline
       @ joinWith ('','' @ newline)
           (map (\<lambda>(k, v).
               let childPath = (if path \<noteq> [] then path @ ''.'' @ k else k);
                   childStr = stringifyWithComments jsonStringify v descMap childPath
                                indent (level + 1)
               in pad indent (level + 1) @ [CHR 0x22] @ k @ [CHR 0x22] @ '': '' @ childStr
                    @ commentFor descMap childPath)
             entries)
       @ newline @ pad indent level @ ''}''"
| "stringifyWithComments jsonStringify JNull descMap path indent level = jsonStringify JNull"
| "stringifyWithComments jsonStringify (JBool b) descMap path indent level =
     jsonStringify (JBool b)"
| "stringifyWithComments jsonStringify (JNum n) descMap path indent level =
     jsonStringify (JNum n)"
| "stringifyWithComments jsonStringify (JStr s) descMap path indent level =
     jsonStringify (JStr s)"
  by pat_completeness auto
termination
proof (relation "measure (\<lambda>(js, v, dm, p, i, l). size v)")
  show "wf (measure (\<lambda>(js, v, dm, p, i, l). size v))" by simp
next
  fix jsonStringify :: "json \<Rightarrow> string" and items :: "json list"
    and descMap :: "string \<rightharpoonup> string" and path :: string and indent level :: nat
    and x :: "nat \<times> json" and xa :: nat and y :: json and xb :: string
  assume "(xa, y) = x" and "x \<in> set (enumerate 0 items)"
  then have "y \<in> set items" by (auto simp: in_set_enumerate_eq)
  then have "size y \<le> size_list size items" by (rule size_list_estimation') simp
  then show "((jsonStringify, y, descMap, xb, indent, level + 1),
              jsonStringify, JArr items, descMap, path, indent, level)
      \<in> measure (\<lambda>(js, v, dm, p, i, l). size v)"
    by simp
next
  fix jsonStringify :: "json \<Rightarrow> string" and entries :: "(string \<times> json) list"
    and descMap :: "string \<rightharpoonup> string" and path :: string and indent level :: nat
    and x :: "string \<times> json" and xa :: string and y :: json and xb :: string
  assume "(xa, y) = x" and "x \<in> set entries"
  then have "(xa, y) \<in> set entries" by simp
  then have "size_prod (\<lambda>_. 0) size (xa, y) \<le> size_list (size_prod (\<lambda>_. 0) size) entries"
    by (rule size_list_estimation') simp
  then show "((jsonStringify, y, descMap, xb, indent, level + 1),
              jsonStringify, JObj entries, descMap, path, indent, level)
      \<in> measure (\<lambda>(js, v, dm, p, i, l). size v)"
    by simp
qed

subsection \<open>Document synthesis: \<open>buildJsonFromFieldList\<close>\<close>

text \<open>
  The document under construction. \<open>Obj\<close> and \<open>Arr\<close> are the objects and arrays the
  synthesis creates itself (\<open>{}\<close>, \<open>[]\<close>, and the defaults of \<open>defaultValueByType\<close>), which
  nothing else refers to; \<open>Placed v\<close> is a value taken over from a field's \<open>example\<close> or
  \<open>value\<close>. A placed object or array is the very object the field holds, so writing below
  it would change the field list as well.
\<close>

datatype doc = Placed json | Obj "(string \<times> doc) list" | Arr "doc list"

fun toJson :: "doc \<Rightarrow> json" where
  "toJson (Placed v) = v"
| "toJson (Obj kvs) = JObj (map (\<lambda>(k, d). (k, toJson d)) kvs)"
| "toJson (Arr ds) = JArr (map toJson ds)"

text \<open>
  \<open>(type || '').toLowerCase()\<close> on the ASCII letters, which is all that the comparison
  with the six type names can depend on.
\<close>

definition toLowerCase :: "string \<Rightarrow> string" where
  "toLowerCase s =
     map (\<lambda>c. if (65 :: nat) \<le> of_char c \<and> of_char c \<le> (90 :: nat)
              then char_of (of_char c + (32 :: nat)) else c) s"

definition defaultValueByType :: "string \<Rightarrow> doc" where
  "defaultValueByType t =
     (let l = toLowerCase t
      in if l = ''integer'' \<or> l = ''number'' then Placed (JNum 0)
         else if l = ''boolean'' then Placed (JBool False)
         else if l = ''array'' then Arr []
         else if l = ''object'' then Obj []
         else if l = ''null'' then Placed JNull
         else Placed (JStr []))"

text \<open>\<open>field.example ?? field.value ?? defaultValueByType(field.type)\<close>.\<close>

definition leafValue :: "field \<Rightarrow> doc" where
  "leafValue f =
     (if \<not> nullish (example f) then Placed (the (example f))
      else if \<not> nullish (fvalue f) then Placed (the (fvalue f))
      else defaultValueByType (type f))"

text \<open>
  Property assignment \<open>current[k] = v\<close> on an object the synthesis owns. An existing
  property keeps its place. A new property goes where \<open>Object.keys\<close> will enumerate it:
  array-index keys (canonical decimal numerals below \<open>2^32 - 1\<close>) in ascending order before
  all other keys, the other keys in order of creation.
\<close>

definition indexValue :: "string \<Rightarrow> int" where
  "indexValue s = fold (\<lambda>c n. 10 * n + (of_char c - 48)) s 0"

definition isArrayIndex :: "string \<Rightarrow> bool" where
  "isArrayIndex s \<longleftrightarrow>
     s \<noteq> [] \<and> list_all (\<lambda>c. (48 :: nat) \<le> of_char c \<and> of_char c \<le> (57 :: nat)) s
     \<and> (s = ''0'' \<or> hd s \<noteq> CHR ''0'') \<and> length s \<le> 10 \<and> indexValue s < 4294967295"

fun insertProp :: "string \<Rightarrow> 'v \<Rightarrow> (string \<times> 'v) list \<Rightarrow> (string \<times> 'v) list" where
  "insertProp k v [] = [(k, v)]"
| "insertProp k v ((k', v') # rest) =
     (if isArrayIndex k \<and> (\<not> isArrayIndex k' \<or> indexValue k < indexValue k')
      then (k, v) # (k', v') # rest
      else (k', v') # insertProp k v rest)"

definition setProp :: "(string \<times> 'v) list \<Rightarrow> string \<Rightarrow> 'v \<Rightarrow> (string \<times> 'v) list" where
  "setProp obj k v =
     (if k \<in> fst ` set obj then map (\<lambda>(k', v'). if k' = k then (k', v) else (k', v')) obj
      else insertProp k v obj)"

text \<open>
  The two ways the walk steps into \<open>current[seg.key]\<close>.

  \<open>enterObject\<close>: \<open>if (typeof x !== 'object' || x === null) x = {}\<close>, then \<open>current = x\<close>.
  \<open>enterArray\<close>: \<open>if (!Array.isArray(x)) x = []\<close>, then \<open>if (x.length === 0) x.push({})\<close>.

  The model covers the walks that stay inside objects and arrays the synthesis created
  itself. \<open>None\<close> marks a step that leaves this fragment; it is not an outcome of the
  source, which goes on in each of these cases:
  \<^item> \<open>x\<close> is an array and the next segment is read from it (\<open>typeof [] === 'object'\<close>): the
    source takes the array as \<open>current\<close> and writes the next segment as a property of the
    array, an element when the segment is an index;
  \<^item> \<open>x\<close> is an object or array placed from a field's \<open>example\<close> or \<open>value\<close>: the source
    writes into that object, and so into the field list itself.
\<close>

fun enterObject :: "doc option \<Rightarrow> (string \<times> doc) list option" where
  "enterObject None = Some []"
| "enterObject (Some (Obj kvs)) = Some kvs"
| "enterObject (Some (Arr ds)) = None"
| "enterObject (Some (Placed (JObj kvs))) = None"
| "enterObject (Some (Placed (JArr vs))) = None"
| "enterObject (Some (Placed v)) = Some []"

fun enterArray :: "doc option \<Rightarrow> doc list option" where
  "enterArray (Some (Arr ds)) = Some (if ds = [] then [Obj []] else ds)"
| "enterArray (Some (Placed (JArr vs))) = None"
| "enterArray d = Some [Obj []]"

text \<open>
  \<open>segments.forEach((seg, index) => ...)\<close> of \<open>buildJsonFromFieldList\<close>, as a walk that
  returns the updated \<open>current\<close>. \<open>isLeaf\<close> holds exactly when no segment remains.

  A segment named \<open>__proto__\<close> leaves the fragment as well (\<open>None\<close>). In the source,
  \<open>current['__proto__']\<close> is the prototype of \<open>current\<close>, for an object literal the object
  \<open>Object.prototype\<close> that all objects of the process share: the walk goes on inside it,
  and what it writes there is inherited by every object that has no property of that name
  itself. All property reads of this theory are reads of an object's own properties;
  \<open>Object.prototype\<close> is taken to be as the language provides it.
\<close>

fun setPath :: "(string \<times> bool) list \<Rightarrow> doc \<Rightarrow> (string \<times> doc) list \<Rightarrow> (string \<times> doc) list option"
where
  "setPath [] val current = Some current"
| "setPath ((k, isArray) # rest) val current =
     (if k = ''__proto__'' then None
      else if isArray then
        (case enterArray (map_of current k) of
           None \<Rightarrow> None
         | Some arr \<Rightarrow>
             if rest = [] then Some (setProp current k (Arr (val # tl arr)))
             else
               (case enterObject (Some (hd arr)) of
                  None \<Rightarrow> None
                | Some el \<Rightarrow>
                    (case setPath rest val el of
                       None \<Rightarrow> None
                     | Some el' \<Rightarrow> Some (setProp current k (Arr (Obj el' # tl arr))))))
      else if rest = [] then Some (setProp current k val)
      else
        (case enterObject (map_of current k) of
           None \<Rightarrow> None
         | Some child \<Rightarrow>
             (case setPath rest val child of
                None \<Rightarrow> None
              | Some child' \<Rightarrow> Some (setProp current k (Obj child')))))"

text \<open>\<open>path.split('.').map(seg => ...)\<close>: the key of a segment and whether it ends in \<open>[]\<close>.\<close>

definition segmentsOf :: "string \<Rightarrow> (string \<times> bool) list" where
  "segmentsOf path = map (\<lambda>seg. (cleanSeg seg, endsWithBrackets seg)) (splitOn CHR ''.'' path)"

text \<open>
  \<open>fields.forEach(field => ...)\<close> on the root object. The function is called on expanded
  lists only, which hold no \<open>null\<close>. Auto-parent entries and entries with a falsy key are
  skipped.
\<close>

fun buildJsonFrom :: "field list \<Rightarrow> (string \<times> doc) list \<Rightarrow> (string \<times> doc) list option" where
  "buildJsonFrom [] root = Some root"
| "buildJsonFrom (f # flds) root =
     (if autoParent f \<or> key f = [] then buildJsonFrom flds root
      else (case setPath (segmentsOf (key f)) (leafValue f) root of
              None \<Rightarrow> None
            | Some root' \<Rightarrow> buildJsonFrom flds root'))"

definition buildJsonFromFieldList :: "field list \<Rightarrow> json option" where
  "buildJsonFromFieldList flds = map_option (\<lambda>root. toJson (Obj root)) (buildJsonFrom flds [])"

section \<open>Properties of parent expansion, projection and rendering\<close>

text \<open>
  The fields of the input that expansion looks at: the entries that are not \<open>null\<close> and
  have a truthy key. An entry that expansion inserts is the object literal of
  \<open>ensureParent\<close>, an array or an object parent.
\<close>

definition userFields :: "field option list \<Rightarrow> field list" where
  "userFields flds = filter (\<lambda>f. key f \<noteq> []) (List.map_filter id flds)"

definition isAutoParentEntry :: "field \<Rightarrow> bool" where
  "isAutoParentEntry g \<longleftrightarrow> g = autoParentField (key g) True \<or> g = autoParentField (key g) False"

lemma isAutoParentEntry_auto [simp]: "isAutoParentEntry (autoParentField p a)"
  by (cases a) (simp_all add: isAutoParentEntry_def autoParentField_def)

lemma userFields_simps [simp]:
  "userFields [] = []"
  "userFields (None # flds) = userFields flds"
  "userFields (Some f # flds) = (if key f = [] then userFields flds else f # userFields flds)"
  by (simp_all add: userFields_def List.map_filter_simps)

lemma userKeysOf_eq: "userKeysOf flds = key ` set (userFields flds)"
  by (simp add: userKeysOf_def userFields_def)

lemma expandFields_Some:
  "key f \<noteq> [] \<Longrightarrow>
   expandFields U (Some f # flds) st =
     expandFields U flds (fst (ensureParent U (key f) st) @ [f],
                          insert (key f) (snd (ensureParent U (key f) st)))"
  by (cases "ensureParent U (key f) st") (simp add: insert_absorb)

lemma ensureSegments_appends:
  "\<exists>autos. fst (ensureSegments U cur segs (res, seen)) = res @ autos
      \<and> (\<forall>g\<in>set autos. isAutoParentEntry g)"
proof (induction segs arbitrary: cur res seen)
  case Nil
  show ?case by simp
next
  case (Cons seg rest)
  show ?case
  proof (cases "extendPath cur seg \<in> U \<or> extendPath cur seg \<in> seen \<or> rest = []")
    case True
    then show ?thesis using Cons.IH [of "extendPath cur seg" res]
      by (auto simp: Let_def)
  next
    case False
    from Cons.IH [of "extendPath cur seg"
        "res @ [autoParentField (extendPath cur seg) (endsWithBrackets seg)]"
        "insert (extendPath cur seg) seen"]
    obtain autos where
      "fst (ensureSegments U (extendPath cur seg) rest
             (res @ [autoParentField (extendPath cur seg) (endsWithBrackets seg)],
              insert (extendPath cur seg) seen))
       = (res @ [autoParentField (extendPath cur seg) (endsWithBrackets seg)]) @ autos"
      "\<forall>g\<in>set autos. isAutoParentEntry g" by blast
    with False show ?thesis
      by (intro exI [of _ "autoParentField (extendPath cur seg) (endsWithBrackets seg) # autos"])
         (simp add: Let_def)
  qed
qed

lemma ensureParent_appends:
  "\<exists>autos. fst (ensureParent U k (res, seen)) = res @ autos
      \<and> (\<forall>g\<in>set autos. isAutoParentEntry g)"
  unfolding ensureParent_def by (rule ensureSegments_appends)

lemma expandFields_interleaves:
  "\<exists>ins. subseq (xs @ userFields flds) (fst (expandFields U flds (res, seen)))
     \<and> mset (fst (expandFields U flds (res, seen))) = mset res + mset (userFields flds) + mset ins
     \<and> (\<forall>g\<in>set ins. isAutoParentEntry g)"
  if "subseq xs res"
  using that
proof (induction flds arbitrary: xs res seen)
  case Nil
  then show ?case by (auto intro: exI [of _ "[]"])
next
  case (Cons x flds)
  show ?case
  proof (cases x)
    case None
    with Cons show ?thesis by simp
  next
    case (Some f)
    show ?thesis
    proof (cases "key f = []")
      case True
      with Some Cons show ?thesis by simp
    next
      case False
      obtain autos where a: "fst (ensureParent U (key f) (res, seen)) = res @ autos"
        "\<forall>g\<in>set autos. isAutoParentEntry g"
        using ensureParent_appends by blast
      let ?seen = "insert (key f) (snd (ensureParent U (key f) (res, seen)))"
      have "subseq xs (res @ autos)"
        using Cons.prems by (rule subseq_rev_drop_many)
      then have "subseq (xs @ [f]) ((res @ autos) @ [f])"
        by (simp only: subseq_append)
      from Cons.IH [OF this, of ?seen]
      obtain ins where i:
        "subseq ((xs @ [f]) @ userFields flds) (fst (expandFields U flds ((res @ autos) @ [f], ?seen)))"
        "mset (fst (expandFields U flds ((res @ autos) @ [f], ?seen)))
           = mset ((res @ autos) @ [f]) + mset (userFields flds) + mset ins"
        "\<forall>g\<in>set ins. isAutoParentEntry g" by blast
      have e: "expandFields U (x # flds) (res, seen)
           = expandFields U flds ((res @ autos) @ [f], ?seen)"
        using False a(1) unfolding Some by (simp add: expandFields_Some del: expandFields.simps)
      show ?thesis
        using i a(2) False Some unfolding e
        by (intro exI [of _ "autos @ ins"]) auto
    qed
  qed
qed

lemma expand_interleaves:
  "\<exists>ins. subseq (userFields flds) (expandFieldListWithParents flds)
     \<and> mset (expandFieldListWithParents flds) = mset (userFields flds) + mset ins
     \<and> (\<forall>g\<in>set ins. isAutoParentEntry g)"
  using expandFields_interleaves [of "[]" "[]" flds "userKeysOf flds" "{}"]
  by (simp add: expandFieldListWithParents_def)


lemma convertParams_Some:
  "convertParams ids (map Some xs) = Inr (map (\<lambda>(i, f). convertParam (ids i) f) (enumerate 0 xs))"
  by (auto simp: convertParams_def nth_enumerate_eq intro!: nth_equalityI)

definition exampleId :: field where
  "exampleId =
     \<lparr>key = ''items[].id'', type = ''string'', field_type = [], required = True,
      is_checked = None, not_null = None, desc = ''identifier'', description = [],
      example = Some (JStr ''x1''), fvalue = None, autoParent = False, schema = None\<rparr>"

definition exampleName :: field where
  "exampleName =
     \<lparr>key = ''items[].name'', type = [], field_type = [], required = False,
      is_checked = None, not_null = None, desc = ''label'', description = [],
      example = Some (JStr ''n1''), fvalue = None, autoParent = False, schema = None\<rparr>"

definition exampleFields :: "field option list" where
  "exampleFields = [Some exampleId, Some exampleName]"

lemma exampleFields_expanded:
  "expandFieldListWithParents exampleFields
     = [autoParentField ''items'' True, exampleId, exampleName]"
  by code_simp

lemma exampleFields_user: "userFields exampleFields = [exampleId, exampleName]"
  by code_simp

text \<open>
  Claim C8. \<open>convertParams\<close> maps the fields of an expanded field list to descriptors one
  to one and in order: the result has the length of the list and descriptor \<open>i\<close> is built
  from field \<open>i\<close> alone, with the field's key. For an auto-parent field the flags
  \<open>is_checked\<close> and \<open>not_null\<close> are \<open>0\<close> and the value is the empty string. For any other
  field the flags are \<open>1\<close> when \<open>required\<close> is set and otherwise the field's own
  \<open>is_checked\<close> and \<open>not_null\<close> (\<open>0\<close> when absent), and the value is the example, or else
  the field's \<open>value\<close>, or else the empty string.
\<close>

theorem convertParams_one_descriptor_per_field:
  "\<exists>ds. convertParams ids (map Some (expandFieldListWithParents flds)) = Inr ds
     \<and> length ds = length (expandFieldListWithParents flds)
     \<and> (\<forall>i < length ds.
           ds ! i = convertParam (ids i) (expandFieldListWithParents flds ! i)
         \<and> p_key (ds ! i) = key (expandFieldListWithParents flds ! i)
         \<and> (autoParent (expandFieldListWithParents flds ! i) \<longrightarrow>
               p_is_checked (ds ! i) = 0 \<and> p_not_null (ds ! i) = 0 \<and> p_value (ds ! i) = JStr [])
         \<and> (\<not> autoParent (expandFieldListWithParents flds ! i) \<longrightarrow>
               p_is_checked (ds ! i) =
                 (if required (expandFieldListWithParents flds ! i) then 1
                  else (case is_checked (expandFieldListWithParents flds ! i) of
                          Some n \<Rightarrow> n | None \<Rightarrow> 0))
             \<and> p_not_null (ds ! i) =
                 (if required (expandFieldListWithParents flds ! i) then 1
                  else (case not_null (expandFieldListWithParents flds ! i) of
                          Some n \<Rightarrow> n | None \<Rightarrow> 0))
             \<and> p_value (ds ! i) =
                 (if \<not> nullish (example (expandFieldListWithParents flds ! i))
                  then the (example (expandFieldListWithParents flds ! i))
                  else if \<not> nullish (fvalue (expandFieldListWithParents flds ! i))
                  then the (fvalue (expandFieldListWithParents flds ! i))
                  else JStr [])))"
  unfolding convertParams_Some
  by (simp add: nth_enumerate_eq convertParam_def)

theorem convertParams_one_descriptor_per_field_witness:
  "\<exists>ds. convertParams showNat (map Some (expandFieldListWithParents exampleFields)) = Inr ds
     \<and> length ds = 3
     \<and> p_key (ds ! 0) = ''items'' \<and> p_is_checked (ds ! 0) = 0 \<and> p_value (ds ! 0) = JStr []
     \<and> p_key (ds ! 1) = ''items[].id'' \<and> p_is_checked (ds ! 1) = 1
     \<and> p_value (ds ! 1) = JStr ''x1''
     \<and> p_key (ds ! 2) = ''items[].name'' \<and> p_is_checked (ds ! 2) = 0
     \<and> p_value (ds ! 2) = JStr ''n1''"
proof -
  from convertParams_one_descriptor_per_field [of showNat exampleFields]
  obtain ds where ds: "convertParams showNat (map Some (expandFieldListWithParents exampleFields)) = Inr ds"
    "length ds = length (expandFieldListWithParents exampleFields)"
    "\<forall>i < length ds. ds ! i = convertParam (showNat i) (expandFieldListWithParents exampleFields ! i)"
    by blast
  have l: "length ds = 3"
    using ds(2) by (simp add: exampleFields_expanded)
  with ds(3) have "ds ! 0 = convertParam (showNat 0) (expandFieldListWithParents exampleFields ! 0)"
    "ds ! 1 = convertParam (showNat 1) (expandFieldListWithParents exampleFields ! 1)"
    "ds ! 2 = convertParam (showNat 2) (expandFieldListWithParents exampleFields ! 2)"
    by simp_all
  then show ?thesis using ds(1) l
    by (intro exI [of _ ds])
       (simp add: exampleFields_expanded exampleId_def exampleName_def convertParam_def
          autoParentField_def)
qed

text \<open>
  Claim C7. An array with no entries renders as \<open>[]\<close>, for every description index. An
  object with no entries does not render as \<open>{}\<close>: the object branch has no test for
  emptiness, so the text is an opening brace, two line feeds, the padding of the level and
  a closing brace.
\<close>

theorem stringifyWithComments_empty_containers:
  "stringifyWithComments jsonStringify (JArr []) descMap path indent level = ''[]''
   \<and> stringifyWithComments jsonStringify (JObj []) descMap path indent level
       = ''{'' @ newline @ newline @ pad indent level @ ''}''
   \<and> stringifyWithComments jsonStringify (JObj []) descMap path indent level \<noteq> ''{}''
   \<and> stringifyWithComments jsonStringify (JObj []) descMap [] 4 0
       = [CHR ''{'', CHR 0x0A, CHR 0x0A, CHR ''}'']"
  by (simp add: newline_def pad_def)

text \<open>
  Claim C9. The fields of the input with a non-empty key form a subsequence of the output
  of \<open>expandFieldListWithParents\<close>, unchanged and in their order, and everything else in
  the output is an inserted auto-parent entry.
\<close>

theorem expand_keeps_user_fields:
  "subseq (userFields flds) (expandFieldListWithParents flds)
   \<and> (\<exists>inserted. mset (expandFieldListWithParents flds) = mset (userFields flds) + mset inserted
         \<and> (\<forall>g\<in>set inserted. isAutoParentEntry g))"
  using expand_interleaves [of flds] by blast

theorem expand_keeps_user_fields_witness:
  "subseq [exampleId, exampleName] (expandFieldListWithParents exampleFields)
   \<and> userFields exampleFields = [exampleId, exampleName]
   \<and> expandFieldListWithParents exampleFields
       = [autoParentField ''items'' True, exampleId, exampleName]"
  using expand_keeps_user_fields [of exampleFields] exampleFields_expanded exampleFields_user
  by simp


section \<open>Properties of document synthesis\<close>

text \<open>The field of the specification's example, and a second field under the same array.\<close>

definition specField :: field where
  "specField =
     \<lparr>key = ''items[].id'', type = [], field_type = [], required = False,
      is_checked = None, not_null = None, desc = [], description = [],
      example = Some (JStr ''x1''), fvalue = None, autoParent = False, schema = None\<rparr>"

definition specName :: field where
  "specName =
     \<lparr>key = ''items[].name'', type = ''integer'', field_type = [], required = False,
      is_checked = None, not_null = None, desc = [], description = [],
      example = None, fvalue = None, autoParent = False, schema = None\<rparr>"

lemma split_id: "splitOn CHR ''.'' ''items[].id'' = [''items[]'', ''id'']"
  by simp

lemma split_name: "splitOn CHR ''.'' ''items[].name'' = [''items[]'', ''name'']"
  by simp

lemma clean_items: "cleanSeg ''items[]'' = ''items''" "endsWithBrackets ''items[]''"
  "cleanSeg ''id'' = ''id''" "\<not> endsWithBrackets ''id''"
  "cleanSeg ''name'' = ''name''" "\<not> endsWithBrackets ''name''"
  by (simp_all add: cleanSeg_def endsWithBrackets_def)

lemma not_index: "\<not> isArrayIndex ''items''" "\<not> isArrayIndex ''id''" "\<not> isArrayIndex ''name''"
  by (simp_all add: isArrayIndex_def)

lemma expand_pair:
  assumes "key f1 = ''items[].id''" "key f2 = ''items[].name''"
  shows "expandFieldListWithParents [Some f1, Some f2] = [autoParentField ''items'' True, f1, f2]"
    and "expandFieldListWithParents [Some f2, Some f1] = [autoParentField ''items'' True, f2, f1]"
  using assms
  by (simp_all add: expandFieldListWithParents_def userKeysOf_def List.map_filter_simps
        ensureParent_def split_id split_name clean_items extendPath_def Let_def)

lemma build_pair:
  assumes "key f1 = ''items[].id''" "key f2 = ''items[].name''"
    "\<not> autoParent f1" "\<not> autoParent f2"
  shows "buildJsonFrom [autoParentField ''items'' True, f1, f2] []
     = Some [(''items'', Arr [Obj [(''id'', leafValue f1), (''name'', leafValue f2)]])]"
    and "buildJsonFrom [autoParentField ''items'' True, f2, f1] []
     = Some [(''items'', Arr [Obj [(''name'', leafValue f2), (''id'', leafValue f1)]])]"
  using assms
  by (simp_all add: autoParentField_def segmentsOf_def split_id split_name clean_items
        setProp_def not_index)

text \<open>
  Claim C6. For the field list \<open>[{key: "items[].id", example: "x1"}]\<close>, synthesis after
  expansion yields \<open>{"items": [{"id": "x1"}]}\<close>. For every pair of fields with the keys
  \<open>items[].id\<close> and \<open>items[].name\<close>, in either order, the synthesized document is the
  object whose only property \<open>items\<close> is an array of exactly one element, and both values
  are properties of that element.
\<close>

theorem buildJson_array_single_element:
  "buildJsonFromFieldList (expandFieldListWithParents [Some specField])
     = Some (JObj [(''items'', JArr [JObj [(''id'', JStr ''x1'')]])])
   \<and> (key f1 = ''items[].id'' \<and> key f2 = ''items[].name'' \<and> \<not> autoParent f1 \<and> \<not> autoParent f2
        \<longrightarrow> buildJsonFromFieldList (expandFieldListWithParents [Some f1, Some f2])
             = Some (JObj [(''items'',
                  JArr [JObj [(''id'', toJson (leafValue f1)), (''name'', toJson (leafValue f2))]])])
          \<and> buildJsonFromFieldList (expandFieldListWithParents [Some f2, Some f1])
             = Some (JObj [(''items'',
                  JArr [JObj [(''name'', toJson (leafValue f2)), (''id'', toJson (leafValue f1))]])]))"
proof (intro conjI impI)
  show "buildJsonFromFieldList (expandFieldListWithParents [Some specField])
     = Some (JObj [(''items'', JArr [JObj [(''id'', JStr ''x1'')]])])"
    by code_simp
next
  assume h: "key f1 = ''items[].id'' \<and> key f2 = ''items[].name'' \<and> \<not> autoParent f1
    \<and> \<not> autoParent f2"
  then have e: "expandFieldListWithParents [Some f1, Some f2]
      = [autoParentField ''items'' True, f1, f2]"
    by (intro expand_pair) simp_all
  from h have "buildJsonFrom [autoParentField ''items'' True, f1, f2] []
      = Some [(''items'', Arr [Obj [(''id'', leafValue f1), (''name'', leafValue f2)]])]"
    by (intro build_pair) simp_all
  then show "buildJsonFromFieldList (expandFieldListWithParents [Some f1, Some f2])
           = Some (JObj [(''items'',
                JArr [JObj [(''id'', toJson (leafValue f1)), (''name'', toJson (leafValue f2))]])])"
    unfolding e buildJsonFromFieldList_def by simp
next
  assume h: "key f1 = ''items[].id'' \<and> key f2 = ''items[].name'' \<and> \<not> autoParent f1
    \<and> \<not> autoParent f2"
  then have e: "expandFieldListWithParents [Some f2, Some f1]
      = [autoParentField ''items'' True, f2, f1]"
    by (intro expand_pair) simp_all
  from h have "buildJsonFrom [autoParentField ''items'' True, f2, f1] []
      = Some [(''items'', Arr [Obj [(''name'', leafValue f2), (''id'', leafValue f1)]])]"
    by (intro build_pair) simp_all
  then show "buildJsonFromFieldList (expandFieldListWithParents [Some f2, Some f1])
           = Some (JObj [(''items'',
                JArr [JObj [(''name'', toJson (leafValue f2)), (''id'', toJson (leafValue f1))]])])"
    unfolding e buildJsonFromFieldList_def by simp
qed

theorem buildJson_array_single_element_witness:
  "key specField = ''items[].id'' \<and> key specName = ''items[].name''
   \<and> \<not> autoParent specField \<and> \<not> autoParent specName
   \<and> buildJsonFromFieldList (expandFieldListWithParents [Some specField, Some specName])
       = Some (JObj [(''items'', JArr [JObj [(''id'', JStr ''x1''), (''name'', JNum 0)]])])
   \<and> buildJsonFromFieldList (expandFieldListWithParents [Some specName, Some specField])
       = Some (JObj [(''items'', JArr [JObj [(''name'', JNum 0), (''id'', JStr ''x1'')]])])"
proof -
  have h: "key specField = ''items[].id'' \<and> key specName = ''items[].name''
      \<and> \<not> autoParent specField \<and> \<not> autoParent specName"
    by (simp add: specField_def specName_def)
  have l: "toJson (leafValue specField) = JStr ''x1''" "toJson (leafValue specName) = JNum 0"
    by code_simp+
  from buildJson_array_single_element [of specField specName] h l
  show ?thesis by simp
qed

text \<open>
  The statement is about fields that address the array through the suffix \<open>[]\<close>. A field
  whose key names the array without the suffix and goes on with an index, as \<open>items.1\<close>
  after \<open>items[].id\<close>, makes the source take the array itself as \<open>current\<close> and write its
  element \<open>1\<close>; such a walk is outside the fragment of \<open>setPath\<close>.
\<close>

lemma buildJson_index_below_array_outside_fragment:
  "buildJsonFromFieldList
     (expandFieldListWithParents [Some specField, Some (specName\<lparr>key := ''items.1''\<rparr>)]) = None"
  by code_simp

section \<open>Path coverage and idempotence of parent expansion\<close>

text \<open>
  The path of a key is the list of its segment names: the key split at the dots, each
  segment without its \<open>[]\<close> suffix. A key is well formed when the name of its first
  segment is not empty and no segment name still ends in \<open>[]\<close> (no segment carries the
  suffix twice). \<open>walkPaths\<close> lists the values \<open>currentPath\<close> takes in \<open>ensureParent\<close>.
\<close>

definition pathSegs :: "string \<Rightarrow> string list" where
  "pathSegs k = map cleanSeg (splitOn CHR ''.'' k)"

definition wellFormedKey :: "string \<Rightarrow> bool" where
  "wellFormedKey k \<longleftrightarrow>
     cleanSeg (hd (splitOn CHR ''.'' k)) \<noteq> []
     \<and> list_all (\<lambda>seg. \<not> endsWithBrackets (cleanSeg seg)) (splitOn CHR ''.'' k)"

fun walkPaths :: "string \<Rightarrow> string list \<Rightarrow> string list" where
  "walkPaths cur [] = []"
| "walkPaths cur (seg # rest) = extendPath cur seg # walkPaths (extendPath cur seg) rest"

definition pathsOf :: "string \<Rightarrow> string list" where
  "pathsOf k = walkPaths [] (splitOn CHR ''.'' k)"

lemma splitOn_nonempty [simp]: "splitOn c xs \<noteq> []"
  by (induction xs) (auto split: list.splits)

lemma splitOn_no_sep: "s \<in> set (splitOn c xs) \<Longrightarrow> c \<notin> set s"
  by (induction xs arbitrary: s) (auto split: list.splits if_splits)

lemma splitOn_single: "c \<notin> set xs \<Longrightarrow> splitOn c xs = [xs]"
  by (induction xs) auto

lemma splitOn_sep:
  "c \<notin> set ys \<Longrightarrow> splitOn c (xs @ c # ys) = splitOn c xs @ [ys]"
proof (induction xs)
  case Nil
  then show ?case by (simp add: splitOn_single)
next
  case (Cons x xs)
  then show ?case by (cases "splitOn c xs") auto
qed

lemma cleanSeg_subset: "set (cleanSeg s) \<subseteq> set s"
  by (auto simp: cleanSeg_def dest: in_set_takeD)

lemma cleanSeg_idem: "\<not> endsWithBrackets (cleanSeg s) \<Longrightarrow> cleanSeg (cleanSeg s) = cleanSeg s"
  by (simp add: cleanSeg_def)

lemma extendPath_clean:
  "\<not> endsWithBrackets (cleanSeg s) \<Longrightarrow> extendPath cur (cleanSeg s) = extendPath cur s"
  by (simp add: extendPath_def cleanSeg_idem)

lemma length_walkPaths [simp]: "length (walkPaths cur segs) = length segs"
  by (induction segs arbitrary: cur) simp_all

lemma walkPaths_eq_Nil [simp]: "walkPaths cur segs = [] \<longleftrightarrow> segs = []"
  by (cases segs) simp_all

lemma walkPaths_take: "walkPaths cur (take n segs) = take n (walkPaths cur segs)"
  by (induction segs arbitrary: cur n) (auto simp: take_Cons split: nat.splits)

lemma walkPaths_clean:
  "list_all (\<lambda>seg. \<not> endsWithBrackets (cleanSeg seg)) segs \<Longrightarrow>
   walkPaths cur (map cleanSeg segs) = walkPaths cur segs"
  by (induction segs arbitrary: cur) (simp_all add: extendPath_clean)

lemma walkPaths_split:
  assumes "cur \<noteq> []" "\<forall>s\<in>set segs. CHR ''.'' \<notin> set s" "i < length segs"
  shows "walkPaths cur segs ! i \<noteq> []
     \<and> splitOn CHR ''.'' (walkPaths cur segs ! i)
         = splitOn CHR ''.'' cur @ map cleanSeg (take (Suc i) segs)"
  using assms
proof (induction segs arbitrary: cur i)
  case Nil
  then show ?case by simp
next
  case (Cons seg rest)
  have d: "CHR ''.'' \<notin> set (cleanSeg seg)"
    using Cons.prems(2) cleanSeg_subset [of seg] by auto
  have e: "extendPath cur seg = cur @ CHR ''.'' # cleanSeg seg"
    using Cons.prems(1) by (simp add: extendPath_def)
  have s: "splitOn CHR ''.'' (extendPath cur seg) = splitOn CHR ''.'' cur @ [cleanSeg seg]"
    unfolding e using d by (rule splitOn_sep)
  show ?case
  proof (cases i)
    case 0
    with s e show ?thesis by simp
  next
    case (Suc j)
    have "extendPath cur seg \<noteq> []" using e by simp
    from Cons.IH [OF this, of j] Cons.prems Suc s show ?thesis by simp
  qed
qed

lemma pathsOf_split:
  assumes "wellFormedKey k" "i < length (splitOn CHR ''.'' k)"
  shows "pathsOf k ! i \<noteq> [] \<and> splitOn CHR ''.'' (pathsOf k ! i) = take (Suc i) (pathSegs k)"
proof (cases "splitOn CHR ''.'' k")
  case Nil
  then show ?thesis by simp
next
  case (Cons seg rest)
  have nodot: "\<forall>s\<in>set (seg # rest). CHR ''.'' \<notin> set s"
    using splitOn_no_sep [of _ "CHR ''.''" k] Cons by auto
  have ne: "cleanSeg seg \<noteq> []" using assms(1) Cons by (simp add: wellFormedKey_def)
  have d: "CHR ''.'' \<notin> set (cleanSeg seg)" using nodot cleanSeg_subset [of seg] by auto
  have x: "extendPath [] seg = cleanSeg seg" by (simp add: extendPath_def)
  show ?thesis
  proof (cases i)
    case 0
    with Cons ne d x show ?thesis
      by (simp add: pathsOf_def pathSegs_def splitOn_single)
  next
    case (Suc j)
    with assms(2) Cons have j: "j < length rest" by simp
    from walkPaths_split [OF ne _ j] nodot
    have "walkPaths (cleanSeg seg) rest ! j \<noteq> []
       \<and> splitOn CHR ''.'' (walkPaths (cleanSeg seg) rest ! j)
           = splitOn CHR ''.'' (cleanSeg seg) @ map cleanSeg (take (Suc j) rest)" by simp
    with Cons Suc x d show ?thesis
      by (simp add: pathsOf_def pathSegs_def splitOn_single take_map)
  qed
qed

lemma length_pathsOf [simp]: "length (pathsOf k) = length (splitOn CHR ''.'' k)"
  by (simp add: pathsOf_def)

lemma length_pathSegs [simp]: "length (pathSegs k) = length (splitOn CHR ''.'' k)"
  by (simp add: pathSegs_def)

lemma wf_clean_all:
  "wellFormedKey k \<Longrightarrow> list_all (\<lambda>seg. \<not> endsWithBrackets (cleanSeg seg)) (splitOn CHR ''.'' k)"
  by (simp add: wellFormedKey_def)

lemma pathsOf_pathSegs: "wellFormedKey k \<Longrightarrow> walkPaths [] (pathSegs k) = pathsOf k"
  unfolding pathSegs_def pathsOf_def by (rule walkPaths_clean) (rule wf_clean_all)

lemma pathsOf_prefix:
  assumes "wellFormedKey k" "i < length (splitOn CHR ''.'' k)"
  shows "pathsOf (pathsOf k ! i) = take (Suc i) (pathsOf k)"
    and "pathSegs (pathsOf k ! i) = take (Suc i) (pathSegs k)"
    and "wellFormedKey (pathsOf k ! i)"
proof -
  from pathsOf_split [OF assms]
  have s: "splitOn CHR ''.'' (pathsOf k ! i) = take (Suc i) (pathSegs k)" by simp
  have all: "list_all (\<lambda>seg. \<not> endsWithBrackets (cleanSeg seg)) (splitOn CHR ''.'' k)"
    using assms(1) by (rule wf_clean_all)
  then have idem: "map cleanSeg (pathSegs k) = pathSegs k"
    by (auto simp: pathSegs_def list_all_iff cleanSeg_idem)
  show "pathsOf (pathsOf k ! i) = take (Suc i) (pathsOf k)"
    using pathsOf_pathSegs [OF assms(1)]
    by (simp add: pathsOf_def [of "pathsOf k ! i"] s walkPaths_take)
  show p: "pathSegs (pathsOf k ! i) = take (Suc i) (pathSegs k)"
    using idem by (simp add: pathSegs_def [of "pathsOf k ! i"] s take_map [symmetric])
  have "list_all (\<lambda>seg. \<not> endsWithBrackets (cleanSeg seg)) (pathSegs k)"
    using all by (auto simp: pathSegs_def list_all_iff cleanSeg_idem)
  then have "list_all (\<lambda>seg. \<not> endsWithBrackets (cleanSeg seg)) (take (Suc i) (pathSegs k))"
    by (auto simp: list_all_iff dest: in_set_takeD)
  moreover have "cleanSeg (hd (take (Suc i) (pathSegs k))) \<noteq> []"
    using assms all by (cases "splitOn CHR ''.'' k")
      (auto simp: pathSegs_def wellFormedKey_def cleanSeg_idem)
  ultimately show "wellFormedKey (pathsOf k ! i)"
    by (simp add: wellFormedKey_def s)
qed


definition pathOf :: "string \<Rightarrow> string" where
  "pathOf k = last (pathsOf k)"

definition parentPaths :: "string \<Rightarrow> string list" where
  "parentPaths k = butlast (pathsOf k)"

fun covered :: "string set \<Rightarrow> string set \<Rightarrow> field list \<Rightarrow> bool" where
  "covered U P [] = True"
| "covered U P (g # rest) =
     (list_all (\<lambda>c. c \<in> U \<or> c \<in> P) (parentPaths (key g))
      \<and> covered U (insert (key g) (insert (pathOf (key g)) P)) rest)"

definition names :: "field list \<Rightarrow> string set" where
  "names res = key ` set res \<union> pathOf ` key ` set res"

lemma names_simps [simp]:
  "names [] = {}"
  "names (g # res) = insert (key g) (insert (pathOf (key g)) (names res))"
  "names (xs @ ys) = names xs \<union> names ys"
  by (auto simp: names_def)

lemma covered_append:
  "covered U P (xs @ ys) \<longleftrightarrow> covered U P xs \<and> covered U (P \<union> names xs) ys"
proof (induction xs arbitrary: P)
  case Nil
  show ?case by simp
next
  case (Cons g xs)
  have "insert (key g) (insert (pathOf (key g)) P) \<union> names xs
      = P \<union> names (g # xs)" by auto
  with Cons show ?case by simp
qed

lemma covered_mono:
  "covered U P xs \<Longrightarrow> U \<subseteq> V \<Longrightarrow> P \<subseteq> Q \<Longrightarrow> covered V Q xs"
proof (induction xs arbitrary: P Q)
  case Nil
  show ?case by simp
next
  case (Cons g xs)
  from Cons.prems have "covered U (insert (key g) (insert (pathOf (key g)) P)) xs" by simp
  then have "covered V (insert (key g) (insert (pathOf (key g)) Q)) xs"
    using Cons.prems by (intro Cons.IH) auto
  with Cons.prems show ?case by (auto simp: list_all_iff)
qed

lemma walkPaths_last_Cons:
  "rest \<noteq> [] \<Longrightarrow> last (walkPaths cur (seg # rest)) = last (walkPaths (extendPath cur seg) rest)"
  by (cases rest) simp_all

lemma walkPaths_butlast_Cons:
  "rest \<noteq> [] \<Longrightarrow> butlast (walkPaths cur (seg # rest))
     = extendPath cur seg # butlast (walkPaths (extendPath cur seg) rest)"
  by (cases rest) simp_all

lemma ensureSegments_skip:
  "extendPath cur seg \<in> U \<or> extendPath cur seg \<in> seen \<Longrightarrow>
   ensureSegments U cur (seg # rest) (res, seen)
     = ensureSegments U (extendPath cur seg) rest (res, seen)"
  by (auto simp: Let_def)

lemma ensureSegments_new:
  "extendPath cur seg \<notin> U \<Longrightarrow> extendPath cur seg \<notin> seen \<Longrightarrow>
   ensureSegments U cur (seg # rest) (res, seen)
     = ensureSegments U (extendPath cur seg) rest
         (if rest \<noteq> [] then res @ [autoParentField (extendPath cur seg) (endsWithBrackets seg)]
          else res, insert (extendPath cur seg) seen)"
  by (simp add: Let_def)

definition runInv :: "string set \<Rightarrow> field list \<Rightarrow> string set \<Rightarrow> bool" where
  "runInv U res seen \<longleftrightarrow>
     covered U {} res \<and> seen \<subseteq> names res \<and> (\<forall>g\<in>set res. wellFormedKey (key g))"

lemma ensureSegments_covered:
  assumes "covered U {} res" "\<forall>g\<in>set res. wellFormedKey (key g)"
    and "seen \<subseteq> names res"
    and "\<forall>c\<in>set hist. c \<in> U \<or> c \<in> names res"
    and "\<forall>i. Suc i < length segs \<longrightarrow>
           wellFormedKey (walkPaths cur segs ! i)
           \<and> parentPaths (walkPaths cur segs ! i) = hist @ take i (walkPaths cur segs)"
    and "ensureSegments U cur segs (res, seen) = (res', seen')"
  shows "covered U {} res' \<and> (\<forall>g\<in>set res'. wellFormedKey (key g))
     \<and> (\<forall>c\<in>seen'. c \<in> names res' \<or> (segs \<noteq> [] \<and> c = last (walkPaths cur segs)))
     \<and> (\<forall>c\<in>set hist \<union> set (butlast (walkPaths cur segs)). c \<in> U \<or> c \<in> names res')
     \<and> names res \<subseteq> names res'"
  using assms
proof (induction segs arbitrary: cur res seen hist)
  case Nil
  then show ?case by auto
next
  case (Cons seg rest)
  let ?c = "extendPath cur seg"
  have link': "\<forall>i. Suc i < length rest \<longrightarrow>
           wellFormedKey (walkPaths ?c rest ! i)
           \<and> parentPaths (walkPaths ?c rest ! i) = (hist @ [?c]) @ take i (walkPaths ?c rest)"
  proof (intro allI impI)
    fix i assume "Suc i < length rest"
    then have "Suc (Suc i) < length (seg # rest)" by simp
    with Cons.prems(5) have "wellFormedKey (walkPaths cur (seg # rest) ! Suc i)
       \<and> parentPaths (walkPaths cur (seg # rest) ! Suc i)
           = hist @ take (Suc i) (walkPaths cur (seg # rest))" by blast
    then show "wellFormedKey (walkPaths ?c rest ! i)
           \<and> parentPaths (walkPaths ?c rest ! i) = (hist @ [?c]) @ take i (walkPaths ?c rest)"
      by simp
  qed
  show ?case
  proof (cases "rest = []")
    case True
    with Cons.prems show ?thesis by (auto simp: Let_def split: if_splits)
  next
    case False
    then have l0: "Suc 0 < length (seg # rest)" by (cases rest) simp_all
    with Cons.prems(5) have wf0: "wellFormedKey ?c" and pp0: "parentPaths ?c = hist"
      by (auto dest!: spec [of _ 0])
    show ?thesis
    proof (cases "?c \<in> U \<or> ?c \<in> seen")
      case True
      then have e: "ensureSegments U ?c rest (res, seen) = (res', seen')"
        using Cons.prems(6) by (simp only: ensureSegments_skip)
      have h: "\<forall>c\<in>set (hist @ [?c]). c \<in> U \<or> c \<in> names res"
        using True Cons.prems(3,4) by auto
      from Cons.IH [OF Cons.prems(1,2,3) h link' e] False
      show ?thesis by (simp add: walkPaths_last_Cons walkPaths_butlast_Cons)
    next
      case new: False
      let ?a = "autoParentField ?c (endsWithBrackets seg)"
      have ka: "key ?a = ?c" by (simp add: autoParentField_def)
      have e: "ensureSegments U ?c rest (res @ [?a], insert ?c seen) = (res', seen')"
        using Cons.prems(6) new False by (simp add: ensureSegments_new del: ensureSegments.simps)
      have c1: "covered U {} (res @ [?a])"
        using Cons.prems(1,4) pp0 by (simp add: covered_append ka list_all_iff)
      have c2: "\<forall>g\<in>set (res @ [?a]). wellFormedKey (key g)"
        using Cons.prems(2) wf0 ka by auto
      have c3: "insert ?c seen \<subseteq> names (res @ [?a])"
        using Cons.prems(3) ka by auto
      have c4: "\<forall>c\<in>set (hist @ [?c]). c \<in> U \<or> c \<in> names (res @ [?a])"
        using Cons.prems(4) ka by auto
      from Cons.IH [OF c1 c2 c3 c4 link' e] False
      show ?thesis by (simp add: walkPaths_last_Cons walkPaths_butlast_Cons)
    qed
  qed
qed


lemma ensureParent_covered:
  assumes "runInv U res seen" "wellFormedKey k"
    and "ensureParent U k (res, seen) = (res', seen')"
  shows "covered U {} res' \<and> (\<forall>g\<in>set res'. wellFormedKey (key g))
     \<and> (\<forall>c\<in>seen'. c \<in> names res' \<or> c = pathOf k)
     \<and> (\<forall>c\<in>set (parentPaths k). c \<in> U \<or> c \<in> names res')"
proof -
  let ?segs = "splitOn CHR ''.'' k"
  have link: "\<forall>i. Suc i < length ?segs \<longrightarrow>
           wellFormedKey (walkPaths [] ?segs ! i)
           \<and> parentPaths (walkPaths [] ?segs ! i) = [] @ take i (walkPaths [] ?segs)"
  proof (intro allI impI)
    fix i assume i: "Suc i < length ?segs"
    then have i': "i < length ?segs" by simp
    from pathsOf_prefix [OF assms(2) i']
    have "pathsOf (pathsOf k ! i) = take (Suc i) (pathsOf k)" "wellFormedKey (pathsOf k ! i)"
      by simp_all
    moreover have "butlast (take (Suc i) (pathsOf k)) = take i (pathsOf k)"
      using i by (simp add: butlast_take)
    ultimately show "wellFormedKey (walkPaths [] ?segs ! i)
           \<and> parentPaths (walkPaths [] ?segs ! i) = [] @ take i (walkPaths [] ?segs)"
      by (simp add: parentPaths_def pathsOf_def [of k, symmetric])
  qed
  have e: "ensureSegments U [] ?segs (res, seen) = (res', seen')"
    using assms(3) by (simp add: ensureParent_def)
  from assms(1) have a: "covered U {} res" "\<forall>g\<in>set res. wellFormedKey (key g)"
    "seen \<subseteq> names res" by (simp_all add: runInv_def)
  have h: "\<forall>c\<in>set []. c \<in> U \<or> c \<in> names res" by simp
  from ensureSegments_covered [OF a h link e]
  show ?thesis by (simp add: pathOf_def parentPaths_def pathsOf_def)
qed

lemma expandFields_covered:
  assumes "\<forall>f\<in>set (userFields flds). wellFormedKey (key f)" "runInv U res seen"
  shows "covered U {} (fst (expandFields U flds (res, seen)))
     \<and> (\<forall>g\<in>set (fst (expandFields U flds (res, seen))). wellFormedKey (key g))"
  using assms
proof (induction flds arbitrary: res seen)
  case Nil
  then show ?case by (simp add: runInv_def)
next
  case (Cons x flds)
  show ?case
  proof (cases x)
    case None
    with Cons show ?thesis by simp
  next
    case (Some f)
    show ?thesis
    proof (cases "key f = []")
      case True
      with Some Cons show ?thesis by simp
    next
      case False
      with Some Cons.prems(1) have wf: "wellFormedKey (key f)" by simp
      obtain res' seen' where e: "ensureParent U (key f) (res, seen) = (res', seen')"
        by (cases "ensureParent U (key f) (res, seen)") auto
      from ensureParent_covered [OF Cons.prems(2) wf e]
      have r: "covered U {} res'" "\<forall>g\<in>set res'. wellFormedKey (key g)"
        "\<forall>c\<in>seen'. c \<in> names res' \<or> c = pathOf (key f)"
        "\<forall>c\<in>set (parentPaths (key f)). c \<in> U \<or> c \<in> names res'" by simp_all
      have inv: "runInv U (res' @ [f]) (insert (key f) seen')"
        unfolding runInv_def using r wf
        by (auto simp: covered_append list_all_iff)
      have "expandFields U (x # flds) (res, seen)
          = expandFields U flds (res' @ [f], insert (key f) seen')"
        using False e unfolding Some by (simp add: expandFields_Some del: expandFields.simps)
      moreover have "\<forall>f\<in>set (userFields flds). wellFormedKey (key f)"
        using Cons.prems(1) Some False by simp
      ultimately show ?thesis using Cons.IH [OF _ inv] by simp
    qed
  qed
qed

lemma expand_covered:
  assumes "\<forall>f\<in>set (userFields flds). wellFormedKey (key f)"
  shows "covered (userKeysOf flds) {} (expandFieldListWithParents flds)"
    and "\<forall>g\<in>set (expandFieldListWithParents flds). wellFormedKey (key g)"
  using expandFields_covered [OF assms, of "userKeysOf flds" "[]" "{}"]
  by (simp_all add: expandFieldListWithParents_def runInv_def)


lemma ensureSegments_noop:
  assumes "\<forall>c\<in>set (butlast (walkPaths cur segs)). c \<in> V \<or> c \<in> seen" "segs \<noteq> []"
  shows "\<exists>seen'. ensureSegments V cur segs (res, seen) = (res, seen') \<and> seen \<subseteq> seen'
           \<and> (last (walkPaths cur segs) \<in> V \<or> last (walkPaths cur segs) \<in> seen')"
  using assms
proof (induction segs arbitrary: cur seen)
  case Nil
  then show ?case by simp
next
  case (Cons seg rest)
  show ?case
  proof (cases "rest = []")
    case True
    then show ?thesis by (auto simp: Let_def)
  next
    case False
    with Cons.prems(1) have c: "extendPath cur seg \<in> V \<or> extendPath cur seg \<in> seen"
      and r: "\<forall>c\<in>set (butlast (walkPaths (extendPath cur seg) rest)). c \<in> V \<or> c \<in> seen"
      by (simp_all add: walkPaths_butlast_Cons)
    from Cons.IH [OF r False] c False show ?thesis
      by (simp add: ensureSegments_skip walkPaths_last_Cons del: ensureSegments.simps)
  qed
qed

lemma expandFields_fixpoint:
  assumes "covered V P out" "\<forall>g\<in>set out. key g \<noteq> []" "P \<subseteq> V \<union> seen"
  shows "fst (expandFields V (map Some out) (res, seen)) = res @ out"
  using assms
proof (induction out arbitrary: P res seen)
  case Nil
  show ?case by simp
next
  case (Cons g out)
  from Cons.prems have pp: "\<forall>c\<in>set (butlast (walkPaths [] (splitOn CHR ''.'' (key g)))).
      c \<in> V \<or> c \<in> seen"
    by (auto simp: list_all_iff parentPaths_def pathsOf_def)
  from ensureSegments_noop [OF pp, of res]
  obtain seen' where s: "ensureParent V (key g) (res, seen) = (res, seen')" "seen \<subseteq> seen'"
    "pathOf (key g) \<in> V \<or> pathOf (key g) \<in> seen'"
    by (auto simp: ensureParent_def pathOf_def pathsOf_def)
  have k: "key g \<noteq> []" using Cons.prems(2) by simp
  have e: "expandFields V (map Some (g # out)) (res, seen)
      = expandFields V (map Some out) (res @ [g], insert (key g) seen')"
    using k s(1) by (simp add: expandFields_Some del: expandFields.simps)
  have "insert (key g) (insert (pathOf (key g)) P) \<subseteq> V \<union> insert (key g) seen'"
    using Cons.prems(3) s(2,3) by auto
  from Cons.IH [OF _ _ this, of "res @ [g]"] Cons.prems(1,2) show ?case
    unfolding e by simp
qed

lemma userKeysOf_Some: "\<forall>g\<in>set out. key g \<noteq> [] \<Longrightarrow> userKeysOf (map Some out) = key ` set out"
  by (induction out) (auto simp: userKeysOf_eq)

lemma userFields_Some: "\<forall>g\<in>set out. key g \<noteq> [] \<Longrightarrow> userFields (map Some out) = out"
  by (induction out) auto

lemma wellFormedKey_nonempty: "wellFormedKey k \<Longrightarrow> k \<noteq> []"
  by (auto simp: wellFormedKey_def cleanSeg_def endsWithBrackets_def)

lemma userKeys_in_output: "userKeysOf flds \<subseteq> key ` set (expandFieldListWithParents flds)"
proof -
  from expand_interleaves [of flds]
  have "subseq (userFields flds) (expandFieldListWithParents flds)" by blast
  then have "set (userFields flds) \<subseteq> set (expandFieldListWithParents flds)"
    by (auto dest: list_emb_set)
  then show ?thesis by (auto simp: userKeysOf_eq)
qed

lemma expand_idempotent:
  assumes "\<forall>f\<in>set (userFields flds). wellFormedKey (key f)"
  shows "expandFieldListWithParents (map Some (expandFieldListWithParents flds))
       = expandFieldListWithParents flds"
proof -
  let ?out = "expandFieldListWithParents flds"
  have ne: "\<forall>g\<in>set ?out. key g \<noteq> []"
    using expand_covered(2) [OF assms] by (auto dest: wellFormedKey_nonempty)
  have "covered (key ` set ?out) {} ?out"
    using expand_covered(1) [OF assms] userKeys_in_output [of flds]
    by (rule covered_mono) simp
  from expandFields_fixpoint [OF this ne, of "{}" "[]"]
  show ?thesis
    by (simp add: expandFieldListWithParents_def [of "map Some ?out"] userKeysOf_Some [OF ne])
qed


lemma covered_nth:
  assumes "covered U P out" "j < length out" "c \<in> set (parentPaths (key (out ! j)))"
  shows "c \<in> U \<or> c \<in> P \<or> (\<exists>i<j. key (out ! i) = c \<or> pathOf (key (out ! i)) = c)"
  using assms
proof (induction out arbitrary: P j)
  case Nil
  then show ?case by simp
next
  case (Cons g out)
  show ?case
  proof (cases j)
    case 0
    with Cons.prems show ?thesis by (auto simp: list_all_iff)
  next
    case (Suc n)
    with Cons.prems
    have "c \<in> U \<or> c \<in> insert (key g) (insert (pathOf (key g)) P)
        \<or> (\<exists>i<n. key (out ! i) = c \<or> pathOf (key (out ! i)) = c)"
      by (intro Cons.IH) simp_all
    then consider "c \<in> U \<or> c \<in> P" | "key g = c \<or> pathOf (key g) = c"
      | i where "i < n" "key (out ! i) = c \<or> pathOf (key (out ! i)) = c"
      by auto
    then show ?thesis
    proof cases
      case 1
      then show ?thesis by blast
    next
      case 2
      then have "0 < j \<and> (key ((g # out) ! 0) = c \<or> pathOf (key ((g # out) ! 0)) = c)"
        using Suc by simp
      then show ?thesis by blast
    next
      case 3
      then have "Suc i < j \<and> (key ((g # out) ! Suc i) = c \<or> pathOf (key ((g # out) ! Suc i)) = c)"
        using Suc by simp
      then show ?thesis by blast
    qed
  qed
qed

lemma pathSegs_parent:
  assumes "wellFormedKey k" "0 < n" "n < length (pathSegs k)"
  shows "pathsOf k ! (n - 1) \<in> set (parentPaths k)"
    and "pathSegs (pathsOf k ! (n - 1)) = take n (pathSegs k)"
proof -
  have l: "n - 1 < length (splitOn CHR ''.'' k)" using assms(3) by simp
  have "n - 1 < length (butlast (pathsOf k))" using assms(2,3) by simp
  then have "butlast (pathsOf k) ! (n - 1) \<in> set (butlast (pathsOf k))" by (rule nth_mem)
  moreover have "butlast (pathsOf k) ! (n - 1) = pathsOf k ! (n - 1)"
    using assms(2,3) by (simp add: nth_butlast)
  ultimately show "pathsOf k ! (n - 1) \<in> set (parentPaths k)" by (simp add: parentPaths_def)
  from pathsOf_prefix(2) [OF assms(1) l] assms(2)
  show "pathSegs (pathsOf k ! (n - 1)) = take n (pathSegs k)" by simp
qed

lemma pathSegs_pathOf:
  assumes "wellFormedKey k"
  shows "pathSegs (pathOf k) = pathSegs k"
proof -
  let ?n = "length (splitOn CHR ''.'' k)"
  have p: "0 < ?n" by simp
  then have l: "?n - 1 < ?n" by simp
  have "pathsOf k \<noteq> []" by (simp add: pathsOf_def)
  then have "pathOf k = pathsOf k ! (?n - 1)"
    by (simp add: pathOf_def last_conv_nth)
  with pathsOf_prefix(2) [OF assms l] p show ?thesis by simp
qed


definition fieldWithKey :: "string \<Rightarrow> field" where
  "fieldWithKey k =
     \<lparr>key = k, type = ''string'', field_type = [], required = False, is_checked = None,
      not_null = None, desc = ''described'', description = [], example = None, fvalue = None,
      autoParent = False, schema = None\<rparr>"

text \<open>
  Claim C3, as the code has it. For a field list with well-formed keys, every proper
  prefix of the path of every output field is the path of some output field. That field
  stands earlier in the output, unless it is a field the caller declared: a declared
  parent is never shadowed and stays at the caller's position, which may be later.
\<close>

theorem expand_parents_covered:
  assumes "\<forall>f\<in>set (userFields flds). wellFormedKey (key f)"
  shows "\<forall>j < length (expandFieldListWithParents flds).
           \<forall>n. 0 < n \<and> n < length (pathSegs (key (expandFieldListWithParents flds ! j))) \<longrightarrow>
             (\<exists>i < length (expandFieldListWithParents flds).
                pathSegs (key (expandFieldListWithParents flds ! i))
                  = take n (pathSegs (key (expandFieldListWithParents flds ! j)))
                \<and> (i < j \<or> expandFieldListWithParents flds ! i \<in> set (userFields flds)))"
proof -
  let ?out = "expandFieldListWithParents flds"
  show "\<forall>j < length ?out. \<forall>n. 0 < n \<and> n < length (pathSegs (key (?out ! j))) \<longrightarrow>
      (\<exists>i < length ?out. pathSegs (key (?out ! i)) = take n (pathSegs (key (?out ! j)))
         \<and> (i < j \<or> ?out ! i \<in> set (userFields flds)))"
  proof (intro allI impI)
    fix j n
    assume j: "j < length ?out" and n: "0 < n \<and> n < length (pathSegs (key (?out ! j)))"
    let ?k = "key (?out ! j)"
    let ?c = "pathsOf ?k ! (n - 1)"
    have wf: "\<forall>g\<in>set ?out. wellFormedKey (key g)" by (rule expand_covered(2) [OF assms])
    with j have wk: "wellFormedKey ?k" by simp
    from pathSegs_parent [OF wk] n
    have c: "?c \<in> set (parentPaths ?k)" "pathSegs ?c = take n (pathSegs ?k)" by simp_all
    from covered_nth [OF expand_covered(1) [OF assms] j c(1)]
    consider "?c \<in> userKeysOf flds"
      | i where "i < j" "key (?out ! i) = ?c \<or> pathOf (key (?out ! i)) = ?c"
      by auto
    then show "\<exists>i < length ?out. pathSegs (key (?out ! i)) = take n (pathSegs ?k)
         \<and> (i < j \<or> ?out ! i \<in> set (userFields flds))"
    proof cases
      case 1
      then obtain g where g: "g \<in> set (userFields flds)" "key g = ?c"
        by (auto simp: userKeysOf_eq)
      from expand_interleaves [of flds]
      have "subseq (userFields flds) ?out" by blast
      with g(1) have "g \<in> set ?out" by (auto dest: list_emb_set)
      then obtain i where "i < length ?out" "?out ! i = g" by (auto simp: in_set_conv_nth)
      with g c(2) show ?thesis by auto
    next
      case 2
      from 2(1) j have i: "i < length ?out" by simp
      with wf have "wellFormedKey (key (?out ! i))" by simp
      then have "pathSegs (pathOf (key (?out ! i))) = pathSegs (key (?out ! i))"
        by (rule pathSegs_pathOf)
      with 2(2) c(2) have "pathSegs (key (?out ! i)) = take n (pathSegs ?k)" by auto
      with i 2(1) show ?thesis by blast
    qed
  qed
qed

lemma exampleFields_wellFormed: "\<forall>f\<in>set (userFields exampleFields). wellFormedKey (key f)"
  unfolding exampleFields_user by code_simp

theorem expand_parents_covered_witness:
  "wellFormedKey (key exampleId) \<and> wellFormedKey (key exampleName)
   \<and> expandFieldListWithParents exampleFields
       = [autoParentField ''items'' True, exampleId, exampleName]
   \<and> pathSegs (key exampleId) = [''items'', ''id'']
   \<and> (\<exists>i < 3. pathSegs (key (expandFieldListWithParents exampleFields ! i)) = [''items'']
          \<and> (i < 1 \<or> expandFieldListWithParents exampleFields ! i \<in> set (userFields exampleFields)))"
proof -
  have w: "wellFormedKey (key exampleId)" "wellFormedKey (key exampleName)" by code_simp+
  have p: "pathSegs (key exampleId) = [''items'', ''id'']" by code_simp
  have l: "length (expandFieldListWithParents exampleFields) = 3"
    "expandFieldListWithParents exampleFields ! 1 = exampleId"
    by (simp_all add: exampleFields_expanded)
  from expand_parents_covered [OF exampleFields_wellFormed]
  have "\<forall>j < length (expandFieldListWithParents exampleFields).
           \<forall>n. 0 < n \<and> n < length (pathSegs (key (expandFieldListWithParents exampleFields ! j))) \<longrightarrow>
             (\<exists>i < length (expandFieldListWithParents exampleFields).
                pathSegs (key (expandFieldListWithParents exampleFields ! i))
                  = take n (pathSegs (key (expandFieldListWithParents exampleFields ! j)))
                \<and> (i < j \<or> expandFieldListWithParents exampleFields ! i
                      \<in> set (userFields exampleFields)))"
    by blast
  then have "0 < (1::nat) \<and> 1 < length (pathSegs (key (expandFieldListWithParents exampleFields ! 1))) \<longrightarrow>
             (\<exists>i < length (expandFieldListWithParents exampleFields).
                pathSegs (key (expandFieldListWithParents exampleFields ! i))
                  = take 1 (pathSegs (key (expandFieldListWithParents exampleFields ! 1)))
                \<and> (i < 1 \<or> expandFieldListWithParents exampleFields ! i
                      \<in> set (userFields exampleFields)))"
    using l(1) by (elim allE [of _ 1]) simp
  then have "\<exists>i < 3. pathSegs (key (expandFieldListWithParents exampleFields ! i)) = [''items'']
          \<and> (i < 1 \<or> expandFieldListWithParents exampleFields ! i \<in> set (userFields exampleFields))"
    unfolding l p by simp
  with w p exampleFields_expanded show ?thesis by blast
qed

text \<open>
  The claim as worded asks for every prefix earlier in the output. With the parent
  declared after its child, the output is the input, and the child comes first.
\<close>

theorem expand_declared_parent_comes_later:
  "expandFieldListWithParents [Some (fieldWithKey ''a.b''), Some (fieldWithKey ''a'')]
     = [fieldWithKey ''a.b'', fieldWithKey ''a'']
   \<and> pathSegs (key (fieldWithKey ''a.b'')) = [''a'', ''b'']
   \<and> pathSegs (key (fieldWithKey ''a'')) = [''a'']"
  by code_simp

text \<open>
  The guard that keeps a declared parent from being shadowed looks the prefix up among the
  caller's keys as they are written, while the prefix itself is built from segments with
  the suffix \<open>[]\<close> taken off. A parent that the caller declares below an array segment is
  therefore not recognised, and an auto-parent with the same path is inserted beside it.
  Whether an ancestor path can occur twice is for this reason left out of the statement
  above.
\<close>

lemma expand_declared_parent_below_array:
  "map key (expandFieldListWithParents
      [Some (fieldWithKey ''data.items[].meta.x''), Some (fieldWithKey ''data.items[].meta'')])
     = [''data'', ''data.items'', ''data.items.meta'', ''data.items[].meta.x'',
        ''data.items[].meta'']
   \<and> pathSegs ''data.items.meta'' = pathSegs ''data.items[].meta''
   \<and> map key (expandFieldListWithParents
      [Some (fieldWithKey ''a.b.c''), Some (fieldWithKey ''a.b'')])
     = [''a'', ''a.b.c'', ''a.b'']"
  by code_simp

text \<open>
  A segment that carries the suffix twice keeps one \<open>[]\<close> in its name. The parent
  inserted for \<open>x[][].y\<close> has the key \<open>x[]\<close>, whose own path is \<open>[x]\<close>, while the prefix
  of the field's path is \<open>[x[]]\<close>: the keys are taken well formed for this reason.
\<close>

lemma expand_double_suffix_parent:
  "expandFieldListWithParents [Some (fieldWithKey ''x[][].y'')]
     = [autoParentField ''x[]'' True, fieldWithKey ''x[][].y'']
   \<and> pathSegs ''x[][].y'' = [''x[]'', ''y''] \<and> pathSegs ''x[]'' = [''x'']
   \<and> \<not> wellFormedKey ''x[][].y''"
  by code_simp

text \<open>
  Claim C5, as the code has it. For a field list with well-formed keys, expanding the
  expanded list again returns it unchanged.
\<close>

theorem expand_idempotent_on_well_formed_keys:
  assumes "\<forall>f\<in>set (userFields flds). wellFormedKey (key f)"
  shows "expandFieldListWithParents (map Some (expandFieldListWithParents flds))
       = expandFieldListWithParents flds"
  using assms by (rule expand_idempotent)

theorem expand_idempotent_on_well_formed_keys_witness:
  "wellFormedKey (key exampleId) \<and> wellFormedKey (key exampleName)
   \<and> expandFieldListWithParents (map Some (expandFieldListWithParents exampleFields))
       = [autoParentField ''items'' True, exampleId, exampleName]"
proof -
  have w: "wellFormedKey (key exampleId)" "wellFormedKey (key exampleName)" by code_simp+
  from expand_idempotent_on_well_formed_keys [OF exampleFields_wellFormed] w
  show ?thesis by (simp add: exampleFields_expanded)
qed

text \<open>
  For a key with a leading dot the first \<open>currentPath\<close> is the empty string. The first
  expansion inserts a parent with the empty key, the second one skips that entry as a
  field without key and inserts it anew, after the parent \<open>a\<close>.
\<close>

theorem expand_not_idempotent_on_leading_dot:
  "expandFieldListWithParents [Some (fieldWithKey ''.a.b'')]
     = [autoParentField [] False, autoParentField ''a'' False, fieldWithKey ''.a.b'']
   \<and> expandFieldListWithParents
       (map Some (expandFieldListWithParents [Some (fieldWithKey ''.a.b'')]))
     = [autoParentField ''a'' False, autoParentField [] False, fieldWithKey ''.a.b'']
   \<and> expandFieldListWithParents
       (map Some (expandFieldListWithParents [Some (fieldWithKey ''.a.b'')]))
     \<noteq> expandFieldListWithParents [Some (fieldWithKey ''.a.b'')]"
  by code_simp

text \<open>
  The same happens with a doubled suffix when the caller declares \<open>x[]\<close> after a field
  below \<open>x[][]\<close>: the second expansion inserts a parent \<open>x\<close> that the first one did not.
\<close>

lemma expand_not_idempotent_on_double_suffix:
  "map key (expandFieldListWithParents
      [Some (fieldWithKey ''x[][].y.z''), Some (fieldWithKey ''x[]'')])
     = [''x[].y'', ''x[][].y.z'', ''x[]'']
   \<and> map key (expandFieldListWithParents (map Some (expandFieldListWithParents
      [Some (fieldWithKey ''x[][].y.z''), Some (fieldWithKey ''x[]'')])))
     = [''x'', ''x[].y'', ''x[][].y.z'', ''x[]'']"
  by code_simp


section \<open>Response-set normalisation: \<open>normalizeResponses\<close>\<close>

text \<open>
  What the function reads from its surroundings: the configuration flag
  \<open>APIPOST_INLINE_COMMENTS\<close>, the built-ins \<open>JSON.stringify(x)\<close> and
  \<open>JSON.stringify(x, null, 4)\<close>, and the identifiers \<open>generateId\<close> hands out, here
  \<open>generatedId i j\<close> for parameter \<open>j\<close> of response \<open>i\<close>.
\<close>

record env =
  inlineComments :: bool
  jsonStringify :: "json \<Rightarrow> string"
  jsonStringifyPretty :: "json \<Rightarrow> string"
  generatedId :: "nat \<Rightarrow> nat \<Rightarrow> string"

text \<open>
  One item of the \<open>responses\<close> input. \<open>example_id\<close>, \<open>expect\<close> and \<open>raw\<close> are compared with
  \<open>undefined\<close> (\<open>None\<close>); \<open>fields\<close> is \<open>None\<close> when the property is not an array; \<open>status\<close>
  is read through \<open>??\<close>, \<open>name\<close> and \<open>schema\<close> through \<open>||\<close>. The selectors carry the
  prefix \<open>r_\<close>.
\<close>

record response =
  r_example_id :: "json option"
  r_expect :: "json option"
  r_raw :: "json option"
  r_fields :: "field option list option"
  r_status :: "int option"
  r_name :: string
  r_schema :: "json option"

text \<open>The object literal under \<open>expect\<close> and the converted example around it.\<close>

record expectation =
  x_code :: string
  x_content_type :: string
  x_is_default :: int
  x_mock :: string
  x_name :: string
  x_schema :: json
  x_verify_type :: string
  x_sleep :: int

record apipostExample =
  e_example_id :: string
  e_raw :: string
  e_raw_parameter :: "descriptor list"
  e_headers :: "json list"
  e_expect :: expectation

text \<open>
  An element of the resulting \<open>example\<close> array: an element of the input (or of the
  fallback) taken over as it is, or an example the function built.
\<close>

datatype exampleItem = Given "response option" | Built apipostExample

record normalized =
  n_example :: "exampleItem list"
  n_is_check_result :: int

record options =
  fallbackExamples :: "response option list"
  useDefaultWhenMissing :: bool
  keepEmpty :: bool
  isCheckResult :: int

text \<open>The defaults of the destructured \<open>options\<close> parameter.\<close>

definition defaultOptions :: options where
  "defaultOptions =
     \<lparr>fallbackExamples = [], useDefaultWhenMissing = True, keepEmpty = True, isCheckResult = 1\<rparr>"

text \<open>
  The outcome of a call: a value, a thrown error, or \<open>Unmodelled\<close> when the synthesis of
  some item leaves the fragment of \<open>setPath\<close>. \<open>Unmodelled\<close> says nothing about the source:
  there the call may return as well as throw.
\<close>

datatype 'a outcome = Returns 'a | Throws error | Unmodelled

definition isApiPostResponseExample :: "response option \<Rightarrow> bool" where
  "isApiPostResponseExample resp =
     (case resp of
        None \<Rightarrow> False
      | Some r \<Rightarrow> r_example_id r \<noteq> None \<or> r_expect r \<noteq> None \<or> r_raw r \<noteq> None)"

text \<open>
  The literals of the source that are not ASCII, as UTF-8 bytes: the message of the
  default payload, the name of the first response, and the prefix of the other names.
\<close>

definition successMessage :: string where
  "successMessage = [CHR 0xE6, CHR 0x93, CHR 0x8D, CHR 0xE4, CHR 0xBD, CHR 0x9C,
                     CHR 0xE6, CHR 0x88, CHR 0x90, CHR 0xE5, CHR 0x8A, CHR 0x9F]"

definition successName :: string where
  "successName = [CHR 0xE6, CHR 0x88, CHR 0x90, CHR 0xE5, CHR 0x8A, CHR 0x9F,
                  CHR 0xE5, CHR 0x93, CHR 0x8D, CHR 0xE5, CHR 0xBA, CHR 0x94]"

definition responsePrefix :: string where
  "responsePrefix = [CHR 0xE5, CHR 0x93, CHR 0x8D, CHR 0xE5, CHR 0xBA, CHR 0x94]"

definition showInt :: "int \<Rightarrow> string" where
  "showInt i = (if i < 0 then ''-'' @ showNat (nat (- i)) else showNat (nat i))"

definition defaultSchema :: json where
  "defaultSchema = JObj [(''type'', JStr ''object''), (''properties'', JObj [])]"

text \<open>\<open>generateResponseData(undefined)\<close> and the single example built from it.\<close>

definition defaultData :: json where
  "defaultData = JObj [(''code'', JNum 0), (''message'', JStr successMessage), (''data'', JObj [])]"

definition defaultExample :: "env \<Rightarrow> apipostExample" where
  "defaultExample en =
     \<lparr>e_example_id = ''1'', e_raw = jsonStringifyPretty en defaultData, e_raw_parameter = [],
      e_headers = [],
      e_expect = \<lparr>x_code = ''200'', x_content_type = ''application/json'', x_is_default = 1,
                   x_mock = jsonStringify en defaultData, x_name = successName,
                   x_schema = defaultSchema, x_verify_type = ''schema'', x_sleep = 0\<rparr>\<rparr>"

text \<open>
  The object literal the callback of \<open>responses.map((resp, index) => ...)\<close> returns,
  given the expanded field list, the synthesized document and the projected parameters.
\<close>

definition builtExample ::
  "env \<Rightarrow> nat \<Rightarrow> response \<Rightarrow> field list \<Rightarrow> json \<Rightarrow> descriptor list \<Rightarrow> apipostExample"
where
  "builtExample en index r expandedFields rawData params =
     \<lparr>e_example_id = showNat (index + 1),
      e_raw =
        (if inlineComments en \<and> expandedFields \<noteq> []
         then stringifyWithComments (jsonStringify en) rawData (buildDescMap expandedFields)
                [] 4 0
         else jsonStringifyPretty en rawData),
      e_raw_parameter = params,
      e_headers = [],
      e_expect =
        \<lparr>x_code = showInt (case r_status r of Some c \<Rightarrow> c | None \<Rightarrow> 200),
         x_content_type = ''application/json'',
         x_is_default = (if index = 0 then 1 else - 1),
         x_mock = jsonStringify en rawData,
         x_name =
           orElse (r_name r)
             (if index = 0 then successName else responsePrefix @ showNat (index + 1)),
         x_schema =
           (case r_schema r of
              Some sch \<Rightarrow> if truthy sch then sch else defaultSchema
            | None \<Rightarrow> defaultSchema),
         x_verify_type = ''schema'', x_sleep = 0\<rparr>\<rparr>"

text \<open>
  The callback itself. Reading \<open>resp.fields\<close> of a \<open>null\<close> item throws a \<open>TypeError\<close>; an
  empty or missing field list throws the error of the source (\<open>FieldsRequired\<close>). Within
  the fragment the synthesis changes no field, so the three expansions and the two
  syntheses of the source each give the same value.
\<close>

definition convertResponse :: "env \<Rightarrow> nat \<Rightarrow> response option \<Rightarrow> apipostExample outcome" where
  "convertResponse en index resp =
     (case resp of
        None \<Rightarrow> Throws TypeError
      | Some r \<Rightarrow>
          (let flds = (case r_fields r of Some fs \<Rightarrow> fs | None \<Rightarrow> [])
           in if flds = [] then Throws FieldsRequired
              else
                (let expandedFields = expandFieldListWithParents flds
                 in case buildJsonFromFieldList expandedFields of
                      None \<Rightarrow> Unmodelled
                    | Some rawData \<Rightarrow>
                        (case convertParams (generatedId en index) (map Some expandedFields) of
                           Inl e \<Rightarrow> Throws e
                         | Inr params \<Rightarrow>
                             Returns (builtExample en index r expandedFields rawData params)))))"

text \<open>\<open>responses.map\<close>, item by item from \<open>index\<close> on: the first throw ends the call.\<close>

fun convertResponses :: "env \<Rightarrow> nat \<Rightarrow> response option list \<Rightarrow> apipostExample list outcome" where
  "convertResponses en index [] = Returns []"
| "convertResponses en index (resp # rest) =
     (case convertResponse en index resp of
        Throws e \<Rightarrow> Throws e
      | Unmodelled \<Rightarrow> Unmodelled
      | Returns c \<Rightarrow>
          (case convertResponses en (Suc index) rest of
             Throws e \<Rightarrow> Throws e
           | Unmodelled \<Rightarrow> Unmodelled
           | Returns cs \<Rightarrow> Returns (c # cs)))"

text \<open>
  \<open>normalizeResponses(responses, options)\<close>; \<open>responses\<close> is \<open>None\<close> when it is not an
  array.
\<close>

definition normalizeResponses ::
  "env \<Rightarrow> response option list option \<Rightarrow> options \<Rightarrow> normalized outcome"
where
  "normalizeResponses en responses opts =
     (case responses of
        Some rs \<Rightarrow>
          if rs = []
          then Returns \<lparr>n_example = (if keepEmpty opts then [] else map Given (fallbackExamples opts)),
                        n_is_check_result = isCheckResult opts\<rparr>
          else if list_ex isApiPostResponseExample rs
          then Returns \<lparr>n_example = map Given rs, n_is_check_result = isCheckResult opts\<rparr>
          else
            (case convertResponses en 0 rs of
               Throws e \<Rightarrow> Throws e
             | Unmodelled \<Rightarrow> Unmodelled
             | Returns converted \<Rightarrow>
                 Returns \<lparr>n_example = map Built converted,
                          n_is_check_result = isCheckResult opts\<rparr>)
      | None \<Rightarrow>
          if fallbackExamples opts \<noteq> []
          then Returns \<lparr>n_example = map Given (fallbackExamples opts),
                        n_is_check_result = isCheckResult opts\<rparr>
          else if \<not> useDefaultWhenMissing opts
          then Returns \<lparr>n_example = [], n_is_check_result = isCheckResult opts\<rparr>
          else Returns \<lparr>n_example = [Built (defaultExample en)],
                        n_is_check_result = isCheckResult opts\<rparr>)"

section \<open>Properties of response-set normalisation\<close>

text \<open>
  An item lacks its field list when \<open>fields\<close> is not an array or is the empty array.
  \<open>returned\<close> tells a normal return from the other outcomes.
\<close>

definition missingFields :: "response option \<Rightarrow> bool" where
  "missingFields resp =
     (case resp of None \<Rightarrow> False | Some r \<Rightarrow> r_fields r = None \<or> r_fields r = Some [])"

lemma convertResponse_missing:
  "missingFields resp \<Longrightarrow> convertResponse en index resp = Throws FieldsRequired"
  by (auto simp: missingFields_def convertResponse_def split: option.splits)

lemma convertResponses_Returns:
  "convertResponses en index rs = Returns cs \<Longrightarrow>
   length cs = length rs \<and> (\<forall>i<length rs. convertResponse en (index + i) (rs ! i) = Returns (cs ! i))"
proof (induction rs arbitrary: index cs)
  case Nil
  then show ?case by simp
next
  case (Cons resp rest)
  from Cons.prems obtain c cs' where
    c: "convertResponse en index resp = Returns c"
    "convertResponses en (Suc index) rest = Returns cs'" "cs = c # cs'"
    by (auto split: outcome.splits)
  from Cons.IH [OF c(2)] have
    "length cs' = length rest"
    "\<forall>i<length rest. convertResponse en (Suc index + i) (rest ! i) = Returns (cs' ! i)"
    by simp_all
  with c show ?case by (auto simp: nth_Cons split: nat.splits)
qed

lemma convertResponses_throws_first:
  assumes "i < length rs" "convertResponse en (index + i) (rs ! i) = Throws e"
    and "\<forall>j<i. \<exists>c. convertResponse en (index + j) (rs ! j) = Returns c"
  shows "convertResponses en index rs = Throws e"
  using assms
proof (induction rs arbitrary: index i)
  case Nil
  then show ?case by simp
next
  case (Cons resp rest)
  show ?case
  proof (cases i)
    case 0
    with Cons.prems show ?thesis by simp
  next
    case (Suc n)
    have "convertResponses en (Suc index) rest = Throws e"
    proof (rule Cons.IH [of n])
      show "n < length rest" using Cons.prems(1) Suc by simp
      show "convertResponse en (Suc index + n) (rest ! n) = Throws e"
        using Cons.prems(2) Suc by simp
      show "\<forall>j<n. \<exists>c. convertResponse en (Suc index + j) (rest ! j) = Returns c"
      proof (intro allI impI)
        fix j assume "j < n"
        then have "Suc j < i" using Suc by simp
        with Cons.prems(3) have "\<exists>c. convertResponse en (index + Suc j) ((resp # rest) ! Suc j) = Returns c"
          by blast
        then show "\<exists>c. convertResponse en (Suc index + j) (rest ! j) = Returns c" by simp
      qed
    qed
    moreover have "\<exists>c. convertResponse en index resp = Returns c"
      using Cons.prems(3) Suc by (auto dest!: spec [of _ 0])
    ultimately show ?thesis by auto
  qed
qed



definition exampleEnv :: env where
  "exampleEnv =
     \<lparr>inlineComments = False, jsonStringify = (\<lambda>v. ''compact''),
      jsonStringifyPretty = (\<lambda>v. ''pretty''), generatedId = (\<lambda>i j. showNat j)\<rparr>"

definition simplifiedResponse :: response where
  "simplifiedResponse =
     \<lparr>r_example_id = None, r_expect = None, r_raw = None, r_fields = Some exampleFields,
      r_status = Some 200, r_name = ''ok'', r_schema = None\<rparr>"


definition fieldlessResponse :: response where
  "fieldlessResponse =
     \<lparr>r_example_id = None, r_expect = None, r_raw = None, r_fields = Some [],
      r_status = Some 404, r_name = ''missing'', r_schema = None\<rparr>"


lemma normalize_converted:
  "rs \<noteq> [] \<Longrightarrow> \<not> list_ex isApiPostResponseExample rs \<Longrightarrow>
   normalizeResponses en (Some rs) opts =
     (case convertResponses en 0 rs of
        Throws e \<Rightarrow> Throws e
      | Unmodelled \<Rightarrow> Unmodelled
      | Returns converted \<Rightarrow>
          Returns \<lparr>n_example = map Built converted, n_is_check_result = isCheckResult opts\<rparr>)"
  by (simp add: normalizeResponses_def)

definition returned :: "'a outcome \<Rightarrow> bool" where
  "returned out = (case out of Returns v \<Rightarrow> True | Throws e \<Rightarrow> False | Unmodelled \<Rightarrow> False)"


lemma simplified_converts: "returned (convertResponse exampleEnv 0 (Some simplifiedResponse))"
  by code_simp






subsection \<open>Items without a field list\<close>

text \<open>
  Within the model, a non-empty list without a canonical item in which some item lacks
  its field list never yields a response set, and the call throws the error of the
  missing field list when all earlier items convert.
\<close>

lemma normalizeResponses_missing_fields_in_fragment:
  assumes "rs \<noteq> []" "\<not> list_ex isApiPostResponseExample rs"
    and "i < length rs" "missingFields (rs ! i)"
  shows "(\<forall>v. normalizeResponses en (Some rs) opts \<noteq> Returns v)
     \<and> ((\<forall>j<i. \<exists>c. convertResponse en j (rs ! j) = Returns c) \<longrightarrow>
          normalizeResponses en (Some rs) opts = Throws FieldsRequired)"
proof (intro conjI allI impI)
  have t: "convertResponse en (0 + i) (rs ! i) = Throws FieldsRequired"
    using assms(4) by (simp add: convertResponse_missing)
  note n = normalize_converted [OF assms(1,2), of en opts]
  fix v
  show "normalizeResponses en (Some rs) opts \<noteq> Returns v"
  proof
    assume "normalizeResponses en (Some rs) opts = Returns v"
    then obtain cs where "convertResponses en 0 rs = Returns cs"
      unfolding n by (cases "convertResponses en 0 rs") simp_all
    from convertResponses_Returns [OF this] assms(3)
    have "convertResponse en (0 + i) (rs ! i) = Returns (cs ! i)" by simp
    with t show False by simp
  qed
next
  have t: "convertResponse en (0 + i) (rs ! i) = Throws FieldsRequired"
    using assms(4) by (simp add: convertResponse_missing)
  note n = normalize_converted [OF assms(1,2), of en opts]
  assume "\<forall>j<i. \<exists>c. convertResponse en j (rs ! j) = Returns c"
  then have "\<forall>j<i. \<exists>c. convertResponse en (0 + j) (rs ! j) = Returns c" by simp
  from convertResponses_throws_first [OF assms(3) t this]
  show "normalizeResponses en (Some rs) opts = Throws FieldsRequired"
    unfolding n by simp
qed

lemma normalizeResponses_fieldless_example:
  "normalizeResponses exampleEnv (Some [Some simplifiedResponse, Some fieldlessResponse])
         defaultOptions
       = Throws FieldsRequired"
  by code_simp

text \<open>
  Claim C4 asks for a throw on every such list. The source does not give it on all of
  them, by the way of \<open>__proto__\<close> described with \<open>setPath\<close>. The first item below has the
  single field \<open>{key: "__proto__.fields[]", desc: "p", example: {key: "x", desc: "d"}}\<close>,
  the second item has a name and no property \<open>fields\<close>. Synthesis of the first item walks
  from the root object into \<open>Object.prototype\<close> and stores the array \<open>[{key: "x", desc: "d"}]\<close>
  there under the name \<open>fields\<close>. For the second item, \<open>resp.fields\<close> then reads this
  inherited array, the test \<open>fields.length === 0\<close> fails, and the item is converted from a
  field list that is not its own; the call returns two examples. The model stops at the
  segment \<open>__proto__\<close> and leaves the outcome of this call open.
\<close>

definition prototypeField :: field where
  "prototypeField =
     \<lparr>key = ''__proto__.fields[]'', type = [], field_type = [], required = False,
      is_checked = None, not_null = None, desc = ''p'', description = [],
      example = Some (JObj [(''key'', JStr ''x''), (''desc'', JStr ''d'')]), fvalue = None,
      autoParent = False, schema = None\<rparr>"

definition prototypeResponse :: response where
  "prototypeResponse =
     \<lparr>r_example_id = None, r_expect = None, r_raw = None, r_fields = Some [Some prototypeField],
      r_status = None, r_name = [], r_schema = None\<rparr>"

definition namedResponse :: response where
  "namedResponse =
     \<lparr>r_example_id = None, r_expect = None, r_raw = None, r_fields = None,
      r_status = None, r_name = ''second'', r_schema = None\<rparr>"

lemma normalizeResponses_prototype_path_outside_fragment:
  "\<not> list_ex isApiPostResponseExample [Some prototypeResponse, Some namedResponse]
   \<and> missingFields (Some namedResponse)
   \<and> map key (expandFieldListWithParents [Some prototypeField])
       = [''__proto__'', ''__proto__.fields[]'']
   \<and> segmentsOf (key prototypeField) = [(''__proto__'', False), (''fields'', True)]
   \<and> normalizeResponses exampleEnv (Some [Some prototypeResponse, Some namedResponse])
         defaultOptions
       = Unmodelled"
  by code_simp

end
